theory Spec2Isabelle
  imports Main "HOL-Library.Multiset"
begin

unbundle bit_operations_syntax

section \<open>Distributed bitonic sort: a shallow embedding of \<open>MPI/bitonicMPI_fixed.c\<close>\<close>

text \<open>
  Conventions of the embedding.
  \<^item> An \<open>int\<close> array is an \<open>int list\<close>; a function that writes an array returns the
    updated list. Array positions, element counts and process ranks are natural numbers.
  \<^item> C's \<open>int\<close> is the 32-bit type of \<open>limits.h\<close>: \<open>INT_MAX = 2^31 - 1\<close>. Wherever the
    program computes an \<open>int\<close> that can exceed \<open>INT_MAX\<close> (the shifts \<open>x <<= 1\<close> of the
    sizes, the write index \<open>t++\<close> of the merge, the sums \<open>low + k\<close> and \<open>i + k\<close> of the local
    sorter) the embedding tests for it: signed overflow is undefined behaviour in C, and
    the function then stops with \<open>None\<close> or with the fault \<open>Int_overflow\<close>.
  \<^item> \<open>malloc\<close> may fail. The caller of the embedding says which allocations succeed (a
    flag for one call of \<open>merge_and_select\<close>, a predicate \<open>heap\<close> on the allocations of a
    run); a failed allocation is followed by \<open>perror\<close> and \<open>MPI_Abort\<close>, the fault
    \<open>Malloc_failed\<close>.
  \<^item> The \<open>P\<close> processes run the same program in lockstep (every exchange is a blocking
    \<open>MPI_Sendrecv\<close>, every round ends in \<open>MPI_Barrier\<close>), so the state of the run is the
    list of the \<open>P\<close> partitions in rank order; a fault of one process ends the run.
\<close>

definition INT_MAX :: int where
  "INT_MAX = 2147483647"

datatype fault = Malloc_failed | Int_overflow

subsection \<open>Pairwise merge-select (\<open>merge_and_select\<close>)\<close>

text \<open>
  The first \<open>while\<close> loop of \<open>merge_and_select\<close>, over the variables \<open>i\<close>, \<open>j\<close> and \<open>t\<close>.
  The buffer \<open>tmp\<close> is the list of the cells written so far, so that \<open>tmp[t++] = v\<close>
  appends \<open>v\<close>; the increment of the \<open>int\<close> \<open>t\<close> overflows when \<open>t\<close> is \<open>INT_MAX\<close>
  (\<open>i\<close> and \<open>j\<close> never exceed \<open>t\<close>).
\<close>

function merge_loop ::
  "int list \<Rightarrow> int list \<Rightarrow> nat \<Rightarrow> nat \<Rightarrow> nat \<Rightarrow> nat \<Rightarrow> int list
     \<Rightarrow> (nat \<times> nat \<times> nat \<times> int list) option" where
  "merge_loop a b len i j t tmp =
     (if i < len \<and> j < len then
        (if a ! i \<le> b ! j then
           (if INT_MAX \<le> int t then None
            else merge_loop a b len (i + 1) j (t + 1) (tmp @ [a ! i]))
         else
           (if INT_MAX \<le> int t then None
            else merge_loop a b len i (j + 1) (t + 1) (tmp @ [b ! j])))
      else Some (i, j, t, tmp))"
  by pat_completeness auto
termination
  by (relation "measure (\<lambda>(a, b, len, i, j, t, tmp). (len - i) + (len - j))") auto

text \<open>The two draining loops \<open>while (i < len) tmp[t++] = a[i++]\<close>.\<close>

function copy_rest ::
  "int list \<Rightarrow> nat \<Rightarrow> nat \<Rightarrow> nat \<Rightarrow> int list \<Rightarrow> (nat \<times> nat \<times> int list) option" where
  "copy_rest src len i t tmp =
     (if i < len then
        (if INT_MAX \<le> int t then None
         else copy_rest src len (i + 1) (t + 1) (tmp @ [src ! i]))
      else Some (i, t, tmp))"
  by pat_completeness auto
termination
  by (relation "measure (\<lambda>(src, len, i, t, tmp). len - i)") auto

text \<open>
  \<open>merge_and_select a b dst len keep_low\<close>. \<open>tmp_ok\<close> says whether \<open>malloc\<close> returns the
  buffer \<open>tmp\<close>; if not, the call ends in \<open>MPI_Abort\<close>. Otherwise the value is the block of
  \<open>len\<close> cells that the final \<open>memcpy\<close> writes to \<open>dst\<close>.
\<close>

definition merge_and_select ::
  "bool \<Rightarrow> int list \<Rightarrow> int list \<Rightarrow> nat \<Rightarrow> bool \<Rightarrow> fault + int list" where
  "merge_and_select tmp_ok a b len keep_low =
     (if \<not> tmp_ok then Inl Malloc_failed
      else
        (case merge_loop a b len 0 0 0 [] of
           None \<Rightarrow> Inl Int_overflow
         | Some (i, j, t, tmp) \<Rightarrow>
        (case copy_rest a len i t tmp of
           None \<Rightarrow> Inl Int_overflow
         | Some (i', t', tmp') \<Rightarrow>
        (case copy_rest b len j t' tmp' of
           None \<Rightarrow> Inl Int_overflow
         | Some (j', t'', tmp'') \<Rightarrow>
             Inr (if keep_low then take len tmp'' else take len (drop len tmp''))))))"

subsection \<open>The local sorter (\<open>bitonic_sort_recursive\<close>)\<close>

definition swap_int :: "int list \<Rightarrow> nat \<Rightarrow> nat \<Rightarrow> int list" where
  "swap_int arr i j = (let t = arr ! i in (arr[i := arr ! j])[j := t])"

text \<open>
  The \<open>for\<close> loop of \<open>bitonic_compare_and_swap\<close>; \<open>dir\<close> is true for ascending. The loop
  test computes the \<open>int\<close> \<open>low + k\<close> and the body the \<open>int\<close> \<open>i + k\<close>; \<open>None\<close> when one of
  them overflows.
\<close>

function cas_loop :: "int list \<Rightarrow> nat \<Rightarrow> nat \<Rightarrow> bool \<Rightarrow> nat \<Rightarrow> int list option" where
  "cas_loop arr low k dir i =
     (if INT_MAX < int low + int k then None
      else if i < low + k then
        (if INT_MAX < int i + int k then None
         else cas_loop
           (if dir then (if arr ! i > arr ! (i + k) then swap_int arr i (i + k) else arr)
            else (if arr ! i < arr ! (i + k) then swap_int arr i (i + k) else arr))
           low k dir (i + 1))
      else Some arr)"
  by pat_completeness auto
termination
  by (relation "measure (\<lambda>(arr, low, k, dir, i). low + k - i)") auto

definition bitonic_compare_and_swap ::
  "int list \<Rightarrow> nat \<Rightarrow> nat \<Rightarrow> bool \<Rightarrow> int list option" where
  "bitonic_compare_and_swap arr low k dir = cas_loop arr low k dir low"

text \<open>
  The two recursive functions; the argument \<open>low + k\<close> of the call on the upper half is an
  \<open>int\<close> sum too.
\<close>

function bitonic_merge_recursive ::
  "int list \<Rightarrow> nat \<Rightarrow> nat \<Rightarrow> bool \<Rightarrow> int list option" where
  "bitonic_merge_recursive arr low cnt dir =
     (if cnt \<le> 1 then Some arr
      else let k = cnt div 2 in
        (case bitonic_compare_and_swap arr low k dir of
           None \<Rightarrow> None
         | Some arr1 \<Rightarrow>
        (case bitonic_merge_recursive arr1 low k dir of
           None \<Rightarrow> None
         | Some arr2 \<Rightarrow>
             if INT_MAX < int low + int k then None
             else bitonic_merge_recursive arr2 (low + k) k dir)))"
  by pat_completeness auto
termination
  by (relation "measure (\<lambda>(arr, low, cnt, dir). cnt)") auto

function bitonic_sort_recursive ::
  "int list \<Rightarrow> nat \<Rightarrow> nat \<Rightarrow> bool \<Rightarrow> int list option" where
  "bitonic_sort_recursive arr low cnt dir =
     (if cnt \<le> 1 then Some arr
      else let k = cnt div 2 in
        (case bitonic_sort_recursive arr low k True of
           None \<Rightarrow> None
         | Some arr1 \<Rightarrow>
             if INT_MAX < int low + int k then None
             else
               (case bitonic_sort_recursive arr1 (low + k) k False of
                  None \<Rightarrow> None
                | Some arr2 \<Rightarrow> bitonic_merge_recursive arr2 low cnt dir)))"
  by pat_completeness auto
termination
  by (relation "measure (\<lambda>(arr, low, cnt, dir). cnt)") auto

subsection \<open>The partition sizer (\<open>next_power_of_two\<close>, \<open>is_power_of_two\<close>, the padding loop)\<close>

text \<open>
  \<open>while (p < n) p <<= 1\<close>. The value is \<open>None\<close> when the shift overflows; a loop that
  does not return (it cannot double a \<open>p \<le> 0\<close> past \<open>n\<close>) has the value \<open>None\<close> too.
\<close>

partial_function (option) np2_loop :: "int \<Rightarrow> int \<Rightarrow> int option" where
  "np2_loop p n =
     (if p < n then (if 2 * p > INT_MAX then None else np2_loop (2 * p) n) else Some p)"

declare np2_loop.simps [code]

definition next_power_of_two :: "int \<Rightarrow> int option" where
  "next_power_of_two n = (if n \<le> 0 then Some 1 else np2_loop 1 n)"

definition is_power_of_two :: "int \<Rightarrow> bool" where
  "is_power_of_two x = (x > 0 \<and> (x AND (x - 1)) = 0)"

text \<open>
  \<open>while (N % size != 0) N <<= 1\<close> of \<open>main\<close>. Both operands are positive wherever \<open>main\<close>
  reaches the loop, so that C's \<open>%\<close> is \<open>mod\<close>.
\<close>

partial_function (option) pad_loop :: "int \<Rightarrow> int \<Rightarrow> int option" where
  "pad_loop N sizeP =
     (if N mod sizeP \<noteq> 0 then (if 2 * N > INT_MAX then None else pad_loop (2 * N) sizeP)
      else Some N)"

declare pad_loop.simps [code]

text \<open>Lines 101 to 104 of \<open>main\<close>: the padded total \<open>N\<close> and \<open>local_size = N / size\<close>.\<close>

definition partition_sizer :: "int \<Rightarrow> int \<Rightarrow> (int \<times> int) option" where
  "partition_sizer n sizeP =
     (case next_power_of_two n of
        None \<Rightarrow> None
      | Some N0 \<Rightarrow>
          (case pad_loop N0 sizeP of
             None \<Rightarrow> None
           | Some N \<Rightarrow> Some (N, N div sizeP)))"

subsection \<open>The verifier\<close>

text \<open>\<open>verify_sorted\<close> of \<open>MPI/bitonicMPI_fixed.c\<close>: the loop from \<open>i = 1\<close>.\<close>

function verify_loop :: "int list \<Rightarrow> nat \<Rightarrow> nat \<Rightarrow> bool" where
  "verify_loop global n i =
     (if i < n then (if global ! (i - 1) > global ! i then False else verify_loop global n (i + 1))
      else True)"
  by pat_completeness auto
termination
  by (relation "measure (\<lambda>(global, n, i). n - i)") auto

definition verify_sorted :: "int list \<Rightarrow> nat \<Rightarrow> bool" where
  "verify_sorted global n = verify_loop global n 1"

text \<open>
  The verifier written out in \<open>main\<close> of \<open>Extra/bitonicMPI.c\<close> (lines 156 to 170): the loop
  over the variables \<open>sorted\<close> (here \<open>sorted_flag\<close>) and \<open>first_error\<close> that leaves at the first descent, and the
  line it prints: \<open>None\<close> for \<open>SORTED\<close>, otherwise the index \<open>first_error\<close> with the two
  values \<open>global_arr[first_error-1]\<close> and \<open>global_arr[first_error]\<close>.
\<close>

function verify_scan :: "int list \<Rightarrow> nat \<Rightarrow> nat \<Rightarrow> bool \<times> int \<Rightarrow> bool \<times> int" where
  "verify_scan global n i (sorted_flag, first_error) =
     (if i < n then
        (if global ! (i - 1) > global ! i
         then (False, if first_error = - 1 then int i else first_error)
         else verify_scan global n (i + 1) (sorted_flag, first_error))
      else (sorted_flag, first_error))"
  by pat_completeness auto
termination
  by (relation "measure (\<lambda>(global, n, i, s). n - i)") auto

definition verify_report :: "int list \<Rightarrow> nat \<Rightarrow> (int \<times> int \<times> int) option" where
  "verify_report global n =
     (case verify_scan global n 1 (True, - 1) of
        (sorted_flag, first_error) \<Rightarrow>
          if sorted_flag then None
          else Some (first_error, global ! nat (first_error - 1), global ! nat first_error))"

subsection \<open>The distributed exchange network\<close>

text \<open>The value \<open>main\<close> gives its variable \<open>keep_low\<close> in round \<open>(k, j)\<close> (lines 148 to 150).\<close>

definition select_keep_low :: "nat \<Rightarrow> nat \<Rightarrow> nat \<Rightarrow> bool" where
  "select_keep_low rank k j =
     (let ascending_block = (rank AND k = 0);
          lower_partner = (rank AND j = 0)
      in if ascending_block then lower_partner else \<not> lower_partner)"

text \<open>
  The allocations of a run: \<open>global_arr\<close> (rank 0), and for each rank \<open>local\<close>, \<open>recv_buf\<close>,
  \<open>new_local\<close> and the buffer \<open>tmp\<close> of its call of \<open>merge_and_select\<close> in round \<open>(k, j)\<close>.
  A predicate \<open>heap\<close> on them says which calls of \<open>malloc\<close> succeed.
\<close>

datatype alloc =
    Global_arr
  | Local_buf nat
  | Recv_buf nat
  | New_local nat
  | Merge_tmp nat nat nat

text \<open>
  One round \<open>(k, j)\<close> as process \<open>rank\<close> runs it (lines 145 to 159): \<open>MPI_Sendrecv\<close> brings
  the partition of \<open>partner = rank ^ j\<close> into \<open>recv_buf\<close>, and the result of
  \<open>merge_and_select\<close> replaces \<open>local\<close>.
\<close>

definition rank_round ::
  "(alloc \<Rightarrow> bool) \<Rightarrow> int list list \<Rightarrow> nat \<Rightarrow> nat \<Rightarrow> nat \<Rightarrow> nat \<Rightarrow> fault + int list" where
  "rank_round heap parts local_size k j rank =
     (let partner = rank XOR j;
          recv_buf = parts ! partner
      in merge_and_select (heap (Merge_tmp k j rank)) (parts ! rank) recv_buf local_size
           (select_keep_low rank k j))"

text \<open>
  A step that every process takes: the results in rank order, or the fault of the first
  rank that has one.
\<close>

fun lockstep :: "(fault + 'a) list \<Rightarrow> fault + 'a list" where
  "lockstep [] = Inr []"
| "lockstep (r # rs) =
     (case r of
        Inl e \<Rightarrow> Inl e
      | Inr v \<Rightarrow> (case lockstep rs of Inl e \<Rightarrow> Inl e | Inr vs \<Rightarrow> Inr (v # vs)))"

definition network_round ::
  "(alloc \<Rightarrow> bool) \<Rightarrow> nat \<Rightarrow> nat \<Rightarrow> nat \<Rightarrow> nat \<Rightarrow> int list list \<Rightarrow> fault + int list list" where
  "network_round heap sizeP local_size k j parts =
     lockstep (map (rank_round heap parts local_size k j) [0..<sizeP])"

text \<open>
  The state of the network: the partitions, and a log with one entry per round completed
  (the round's \<open>k\<close> and \<open>j\<close> and the partitions it left). The loops return the state they
  reach (\<open>Inr\<close>), or the fault that stops them together with the state reached before it
  (\<open>Inl\<close>).
\<close>

type_synonym net_state = "int list list \<times> (nat \<times> nat \<times> int list list) list"

definition do_round ::
  "(alloc \<Rightarrow> bool) \<Rightarrow> nat \<Rightarrow> nat \<Rightarrow> nat \<Rightarrow> nat \<Rightarrow> net_state
     \<Rightarrow> fault \<times> net_state + net_state" where
  "do_round heap sizeP local_size k j st =
     (case network_round heap sizeP local_size k j (fst st) of
        Inl e \<Rightarrow> Inl (e, st)
      | Inr parts \<Rightarrow> Inr (parts, snd st @ [(k, j, parts)]))"

text \<open>\<open>for (int j = k >> 1; j > 0; j >>= 1)\<close>\<close>

function net_inner ::
  "(alloc \<Rightarrow> bool) \<Rightarrow> nat \<Rightarrow> nat \<Rightarrow> nat \<Rightarrow> nat \<Rightarrow> net_state
     \<Rightarrow> fault \<times> net_state + net_state" where
  "net_inner heap sizeP local_size k j st =
     (if j > 0 then
        (case do_round heap sizeP local_size k j st of
           Inl stop \<Rightarrow> Inl stop
         | Inr st' \<Rightarrow> net_inner heap sizeP local_size k (j div 2) st')
      else Inr st)"
  by pat_completeness auto
termination
  by (relation "measure (\<lambda>(heap, sizeP, local_size, k, j, st). j)") auto

text \<open>
  \<open>for (int k = 2; k <= size; k <<= 1)\<close>. When the shift \<open>k <<= 1\<close> overflows, the loop
  stops with the fault \<open>Int_overflow\<close> and the state that the rounds executed so far
  have left. \<open>None\<close> is a loop that does not return.
\<close>

partial_function (option) net_outer ::
  "(alloc \<Rightarrow> bool) \<Rightarrow> nat \<Rightarrow> nat \<Rightarrow> nat \<Rightarrow> net_state
     \<Rightarrow> (fault \<times> net_state + net_state) option" where
  "net_outer heap sizeP local_size k st =
     (if k \<le> sizeP then
        (case net_inner heap sizeP local_size k (k div 2) st of
           Inl stop \<Rightarrow> Some (Inl stop)
         | Inr st' \<Rightarrow>
             if 2 * int k > INT_MAX then Some (Inl (Int_overflow, st'))
             else net_outer heap sizeP local_size (2 * k) st')
      else Some (Inr st))"

declare net_outer.simps [code]

definition exchange_network ::
  "(alloc \<Rightarrow> bool) \<Rightarrow> nat \<Rightarrow> nat \<Rightarrow> int list list
     \<Rightarrow> (fault \<times> net_state + net_state) option" where
  "exchange_network heap sizeP local_size parts = net_outer heap sizeP local_size 2 (parts, [])"

subsection \<open>The run (\<open>main\<close>)\<close>

text \<open>\<open>MPI_Scatter\<close> hands rank \<open>r\<close> the cells \<open>r * local_size\<close> onwards; \<open>MPI_Gather\<close> is \<open>concat\<close>.\<close>

definition scatter :: "int list \<Rightarrow> nat \<Rightarrow> nat \<Rightarrow> int list list" where
  "scatter global sizeP local_size =
     map (\<lambda>rank. take local_size (drop (rank * local_size) global)) [0..<sizeP]"

text \<open>
  What a run does, in order: the lines it prints (\<open>Perror s\<close> is \<open>perror(s)\<close>), the buffers
  it allocates, the collective operations, and \<open>Exchange k j\<close> for every round \<open>(k, j)\<close> of
  the network that it completes.
\<close>

datatype event =
    Print_usage
  | Error_not_power_of_two int
  | Error_local_size int int
  | Print_banner int int int int
  | Perror string
  | Alloc_global int
  | Alloc_local int
  | Scatter
  | Local_sort
  | Alloc_exchange_buffers int
  | Exchange nat nat
  | Gather
  | Print_result bool

datatype run_result =
    Aborted
  | Undefined_behaviour
  | No_return
  | Finished "int list" bool

text \<open>
  \<open>main\<close>, for the whole group of processes. \<open>arg\<close> is \<open>atoi(argv[1])\<close> when there is an
  argument, \<open>sizeP\<close> the number of processes (\<open>size\<close> in the source), \<open>heap\<close> says which
  allocations succeed and \<open>rnd i\<close> is the \<open>i\<close>-th value \<open>rand() % 1000000\<close>. The result is
  the list of what the run did and how it ended: \<open>Aborted\<close> by \<open>MPI_Abort\<close>,
  \<open>Undefined_behaviour\<close> at the overflow of an \<open>int\<close>, or \<open>Finished\<close> with the gathered
  array and the verifier's answer.
\<close>

definition main_run ::
  "int option \<Rightarrow> int \<Rightarrow> (alloc \<Rightarrow> bool) \<Rightarrow> (nat \<Rightarrow> int) \<Rightarrow> event list \<times> run_result" where
  "main_run arg sizeP heap rnd =
     (let ev0 = (case arg of None \<Rightarrow> [Print_usage] | Some v \<Rightarrow> []);
          n0 = (case arg of None \<Rightarrow> 1024 | Some v \<Rightarrow> v);
          n = (if n0 \<le> 0 then 1024 else n0)
      in if \<not> is_power_of_two sizeP then (ev0 @ [Error_not_power_of_two sizeP], Aborted)
         else
           (case partition_sizer n sizeP of
              None \<Rightarrow> (ev0, Undefined_behaviour)
            | Some (N, local_size) \<Rightarrow>
                if local_size \<le> 0 then (ev0 @ [Error_local_size N sizeP], Aborted)
                else
                  (let ev1 = ev0 @ [Print_banner n N sizeP local_size];
                       ranks = [0..<nat sizeP]
                   in if \<not> heap Global_arr then (ev1 @ [Perror ''malloc global_arr''], Aborted)
                      else
                  (let global_arr = map rnd [0..<nat n] @ replicate (nat N - nat n) INT_MAX;
                       ev2 = ev1 @ [Alloc_global N]
                   in if \<not> list_all (\<lambda>rank. heap (Local_buf rank)) ranks
                      then (ev2 @ [Perror ''malloc local''], Aborted)
                      else
                  (let ev3 = ev2 @ [Alloc_local local_size, Scatter];
                       parts = scatter global_arr (nat sizeP) (nat local_size)
                   in case those (map (\<lambda>local. bitonic_sort_recursive local 0 (nat local_size) True)
                                   parts) of
                        None \<Rightarrow> (ev3, Undefined_behaviour)
                      | Some sorted_parts \<Rightarrow>
                  (let ev4 = ev3 @ [Local_sort]
                   in if \<not> list_all (\<lambda>rank. heap (Recv_buf rank) \<and> heap (New_local rank)) ranks
                      then (ev4 @ [Perror ''malloc buffers''], Aborted)
                      else
                  (let ev5 = ev4 @ [Alloc_exchange_buffers local_size]
                   in case exchange_network heap (nat sizeP) (nat local_size) sorted_parts of
                        None \<Rightarrow> (ev5, No_return)
                      | Some (Inl (e, final_parts, hist)) \<Rightarrow>
                          (let ev6 = ev5 @ map (\<lambda>(k, j, ps). Exchange k j) hist
                           in case e of
                                Malloc_failed \<Rightarrow> (ev6 @ [Perror ''malloc tmp''], Aborted)
                              | Int_overflow \<Rightarrow> (ev6, Undefined_behaviour))
                      | Some (Inr (final_parts, hist)) \<Rightarrow>
                          (let global_arr' = concat final_parts;
                               ok = verify_sorted global_arr' (nat n)
                           in (ev5 @ map (\<lambda>(k, j, ps). Exchange k j) hist
                                 @ [Gather, Print_result ok],
                               Finished global_arr' ok)))))))))"

section \<open>The values of a run without faults\<close>

text \<open>
  The functions above without the tests for overflow and for allocation failure: the
  values that the code computes whenever no fault occurs (lemmas
  \<open>merge_and_select_cases\<close>, \<open>bitonic_sort_recursive_no_overflow\<close> and
  \<open>network_round_no_fault\<close> below).
  They are used to reason about the results.
\<close>

function merge_loop_val ::
  "int list \<Rightarrow> int list \<Rightarrow> nat \<Rightarrow> nat \<Rightarrow> nat \<Rightarrow> int list \<Rightarrow> nat \<times> nat \<times> int list" where
  "merge_loop_val a b len i j tmp =
     (if i < len \<and> j < len then
        (if a ! i \<le> b ! j then merge_loop_val a b len (i + 1) j (tmp @ [a ! i])
         else merge_loop_val a b len i (j + 1) (tmp @ [b ! j]))
      else (i, j, tmp))"
  by pat_completeness auto
termination
  by (relation "measure (\<lambda>(a, b, len, i, j, tmp). (len - i) + (len - j))") auto

function copy_rest_val :: "int list \<Rightarrow> nat \<Rightarrow> nat \<Rightarrow> int list \<Rightarrow> nat \<times> int list" where
  "copy_rest_val src len i tmp =
     (if i < len then copy_rest_val src len (i + 1) (tmp @ [src ! i]) else (i, tmp))"
  by pat_completeness auto
termination
  by (relation "measure (\<lambda>(src, len, i, tmp). len - i)") auto

definition merge_and_select_val :: "int list \<Rightarrow> int list \<Rightarrow> nat \<Rightarrow> bool \<Rightarrow> int list" where
  "merge_and_select_val a b len keep_low =
     (case merge_loop_val a b len 0 0 [] of (i, j, tmp) \<Rightarrow>
      case copy_rest_val a len i tmp of (i', tmp') \<Rightarrow>
      case copy_rest_val b len j tmp' of (j', tmp'') \<Rightarrow>
        if keep_low then take len tmp'' else take len (drop len tmp''))"

text \<open>The contents of \<open>tmp\<close> after the three loops, started from any loop state.\<close>

definition merge_runs ::
  "int list \<Rightarrow> int list \<Rightarrow> nat \<Rightarrow> nat \<Rightarrow> nat \<Rightarrow> int list \<Rightarrow> int list" where
  "merge_runs a b len i j tmp =
     (case merge_loop_val a b len i j tmp of (i', j', t') \<Rightarrow>
        snd (copy_rest_val b len j' (snd (copy_rest_val a len i' t'))))"

function cas_loop_val :: "int list \<Rightarrow> nat \<Rightarrow> nat \<Rightarrow> bool \<Rightarrow> nat \<Rightarrow> int list" where
  "cas_loop_val arr low k dir i =
     (if i < low + k then
        cas_loop_val
          (if dir then (if arr ! i > arr ! (i + k) then swap_int arr i (i + k) else arr)
           else (if arr ! i < arr ! (i + k) then swap_int arr i (i + k) else arr))
          low k dir (i + 1)
      else arr)"
  by pat_completeness auto
termination
  by (relation "measure (\<lambda>(arr, low, k, dir, i). low + k - i)") auto

definition bitonic_compare_and_swap_val :: "int list \<Rightarrow> nat \<Rightarrow> nat \<Rightarrow> bool \<Rightarrow> int list" where
  "bitonic_compare_and_swap_val arr low k dir = cas_loop_val arr low k dir low"

function bitonic_merge_recursive_val :: "int list \<Rightarrow> nat \<Rightarrow> nat \<Rightarrow> bool \<Rightarrow> int list" where
  "bitonic_merge_recursive_val arr low cnt dir =
     (if cnt \<le> 1 then arr
      else let k = cnt div 2;
               arr1 = bitonic_compare_and_swap_val arr low k dir;
               arr2 = bitonic_merge_recursive_val arr1 low k dir
           in bitonic_merge_recursive_val arr2 (low + k) k dir)"
  by pat_completeness auto
termination
  by (relation "measure (\<lambda>(arr, low, cnt, dir). cnt)") auto

function bitonic_sort_recursive_val :: "int list \<Rightarrow> nat \<Rightarrow> nat \<Rightarrow> bool \<Rightarrow> int list" where
  "bitonic_sort_recursive_val arr low cnt dir =
     (if cnt \<le> 1 then arr
      else let k = cnt div 2;
               arr1 = bitonic_sort_recursive_val arr low k True;
               arr2 = bitonic_sort_recursive_val arr1 (low + k) k False
           in bitonic_merge_recursive_val arr2 low cnt dir)"
  by pat_completeness auto
termination
  by (relation "measure (\<lambda>(arr, low, cnt, dir). cnt)") auto

text \<open>
  The partition that process \<open>rank\<close> holds after round \<open>(k, j)\<close>, and the partitions of
  all processes after the round.
\<close>

definition exchange_local :: "int list list \<Rightarrow> nat \<Rightarrow> nat \<Rightarrow> nat \<Rightarrow> nat \<Rightarrow> int list" where
  "exchange_local parts local_size k j rank =
     (let partner = rank XOR j;
          recv_buf = parts ! partner
      in merge_and_select_val (parts ! rank) recv_buf local_size (select_keep_low rank k j))"

definition exchange_round :: "nat \<Rightarrow> nat \<Rightarrow> nat \<Rightarrow> nat \<Rightarrow> int list list \<Rightarrow> int list list" where
  "exchange_round sizeP local_size k j parts = map (exchange_local parts local_size k j) [0..<sizeP]"

definition do_round_val :: "nat \<Rightarrow> nat \<Rightarrow> nat \<Rightarrow> nat \<Rightarrow> net_state \<Rightarrow> net_state" where
  "do_round_val sizeP local_size k j st =
     (let parts = exchange_round sizeP local_size k j (fst st)
      in (parts, snd st @ [(k, j, parts)]))"

text \<open>
  The state in which the network stops, the log of a state, and the rounds \<open>(k, j)\<close> that a
  list of events reports.
\<close>

definition net_state_of :: "fault \<times> net_state + net_state \<Rightarrow> net_state" where
  "net_state_of r = (case r of Inl (e, st) \<Rightarrow> st | Inr st \<Rightarrow> st)"

fun exchange_of :: "event \<Rightarrow> (nat \<times> nat) option" where
  "exchange_of (Exchange k j) = Some (k, j)"
| "exchange_of e = None"

definition exchanges :: "event list \<Rightarrow> (nat \<times> nat) list" where
  "exchanges evs = List.map_filter exchange_of evs"

subsection \<open>Notions used to state the properties\<close>

text \<open>
  \<open>same_outside arr arr' low cnt\<close>: \<open>arr'\<close> is \<open>arr\<close> with the cells of the segment
  \<open>[low, low + cnt)\<close> permuted and every other cell untouched.
\<close>

definition same_outside :: "int list \<Rightarrow> int list \<Rightarrow> nat \<Rightarrow> nat \<Rightarrow> bool" where
  "same_outside arr arr' low cnt \<longleftrightarrow>
     length arr' = length arr \<and> mset arr' = mset arr \<and>
     (\<forall>m. m < length arr \<longrightarrow> m < low \<or> low + cnt \<le> m \<longrightarrow> arr' ! m = arr ! m)"

text \<open>
  The schedule of the network for \<open>P = 2^m\<close> processes: phase \<open>s = 1, \<dots>, m\<close> has
  \<open>k = 2^s\<close> and the rounds \<open>j = 2^(s-1), \<dots>, 2, 1\<close>.
\<close>

definition phase_rounds :: "nat \<Rightarrow> nat \<Rightarrow> (nat \<times> nat) list" where
  "phase_rounds s t = map (\<lambda>u. (2 ^ s, 2 ^ u)) (rev [0..<t])"

definition schedule_from :: "nat \<Rightarrow> nat \<Rightarrow> (nat \<times> nat) list" where
  "schedule_from s m = concat (map (\<lambda>u. phase_rounds u u) [s..<Suc m])"

definition run_rounds :: "nat \<Rightarrow> nat \<Rightarrow> (nat \<times> nat) list \<Rightarrow> net_state \<Rightarrow> net_state" where
  "run_rounds sizeP local_size rs st = foldl (\<lambda>st (k, j). do_round_val sizeP local_size k j st) st rs"

text \<open>
  Threshold counts. For a threshold \<open>x\<close>, a sorted block of \<open>L\<close> values is described by the
  number of its values that are \<open>\<le> x\<close>, a number between \<open>0\<close> and \<open>L\<close>. A sequence of such
  counts is \<open>bshape\<close> (the block form of a bitonic sequence) when, but for two positions
  \<open>p \<le> q\<close>, it is \<open>L \<dots> L 0 \<dots> 0 L \<dots> L\<close> or \<open>0 \<dots> 0 L \<dots> L 0 \<dots> 0\<close> with the change at \<open>p\<close> and
  at \<open>q\<close>.
\<close>

definition bshape :: "nat \<Rightarrow> (nat \<Rightarrow> nat) \<Rightarrow> nat \<Rightarrow> bool" where
  "bshape L f n \<longleftrightarrow>
     (\<exists>p q. p \<le> q \<and>
        ((\<forall>i<n. (i < p \<or> q < i \<longrightarrow> f i = L) \<and> (p < i \<and> i < q \<longrightarrow> f i = 0))
       \<or> (\<forall>i<n. (i < p \<or> q < i \<longrightarrow> f i = 0) \<and> (p < i \<and> i < q \<longrightarrow> f i = L))))"

definition blk_asc :: "nat \<Rightarrow> (nat \<Rightarrow> nat) \<Rightarrow> nat \<Rightarrow> bool" where
  "blk_asc L f n \<longleftrightarrow> (\<forall>i i'. i < i' \<and> i' < n \<longrightarrow> 0 < f i' \<longrightarrow> f i = L)"

definition blk_desc :: "nat \<Rightarrow> (nat \<Rightarrow> nat) \<Rightarrow> nat \<Rightarrow> bool" where
  "blk_desc L f n \<longleftrightarrow> (\<forall>i i'. i < i' \<and> i' < n \<longrightarrow> 0 < f i \<longrightarrow> f i' = L)"

text \<open>
  One round \<open>(k, j) = (2^s, 2^t)\<close> of the network on threshold counts: the process that keeps
  the low half gets \<open>min L\<close> of the pair's sum, its partner the rest.
\<close>

definition round_cnt :: "nat \<Rightarrow> nat \<Rightarrow> nat \<Rightarrow> (nat \<Rightarrow> nat) \<Rightarrow> nat \<Rightarrow> nat" where
  "round_cnt L s t c r =
     (if bit r s \<longleftrightarrow> bit r t then min L (c r + c (r XOR 2 ^ t))
      else c r + c (r XOR 2 ^ t) - L)"

text \<open>
  The invariant of the network in phase \<open>k = 2^s\<close> before the round \<open>j = 2^(t-1)\<close>, on the
  threshold counts \<open>c\<close> of the \<open>2^m\<close> partitions: every aligned window of \<open>2^t\<close> ranks is
  \<open>bshape\<close>, and within an aligned group of \<open>2^s\<close> ranks the windows are in the order of
  the group's direction (ascending for an even group, descending for an odd one).
\<close>

definition net_inv :: "nat \<Rightarrow> nat \<Rightarrow> nat \<Rightarrow> nat \<Rightarrow> (nat \<Rightarrow> nat) \<Rightarrow> bool" where
  "net_inv L m s t c \<longleftrightarrow>
     (\<forall>r<2 ^ m. c r \<le> L)
   \<and> (\<forall>b. b * 2 ^ t < 2 ^ m \<longrightarrow> bshape L (\<lambda>i. c (b * 2 ^ t + i)) (2 ^ t))
   \<and> (\<forall>r r'. r < r' \<and> r' < 2 ^ m \<and> r div 2 ^ s = r' div 2 ^ s \<and> r div 2 ^ t \<noteq> r' div 2 ^ t \<longrightarrow>
         (if even (r div 2 ^ s) then (0 < c r' \<longrightarrow> c r = L) else (0 < c r \<longrightarrow> c r' = L)))"

text \<open>The threshold count of a block: the number of its values that are \<open>\<le> x\<close>.\<close>

definition cnt_le :: "int \<Rightarrow> int list \<Rightarrow> nat" where
  "cnt_le x xs = length (filter (\<lambda>v. v \<le> x) xs)"

text \<open>\<open>P\<close> partitions, each ascending and of length \<open>L\<close>.\<close>

definition parts_ok :: "nat \<Rightarrow> nat \<Rightarrow> int list list \<Rightarrow> bool" where
  "parts_ok P L parts \<longleftrightarrow> length parts = P \<and> (\<forall>p\<in>set parts. sorted p \<and> length p = L)"

text \<open>
  The invariant of the run of the network from the partitions \<open>parts0\<close>: the partitions
  are ascending blocks of length \<open>L\<close> holding the values of \<open>parts0\<close>, so were the
  partitions after every round of the log, and the threshold counts satisfy \<open>net_inv\<close> for
  every threshold.
\<close>

definition net_ok :: "nat \<Rightarrow> nat \<Rightarrow> nat \<Rightarrow> nat \<Rightarrow> int list list \<Rightarrow> net_state \<Rightarrow> bool" where
  "net_ok L m s t parts0 st \<longleftrightarrow>
     parts_ok (2 ^ m) L (fst st)
   \<and> mset (concat (fst st)) = mset (concat parts0)
   \<and> (\<forall>e\<in>set (snd st). parts_ok (2 ^ m) L (snd (snd e)))
   \<and> (\<forall>x. net_inv L m s t (\<lambda>r. cnt_le x (fst st ! r)))"

text \<open>
  The threshold count of one array cell (a block of length 1): \<open>1\<close> when the cell
  \<open>low + i\<close> holds a value \<open>\<le> x\<close>, else \<open>0\<close>.
\<close>

definition ind_le :: "int \<Rightarrow> int list \<Rightarrow> nat \<Rightarrow> nat \<Rightarrow> nat" where
  "ind_le x arr low i = (if arr ! (low + i) \<le> x then 1 else 0)"

text \<open>The element count \<open>n\<close> that \<open>main\<close> works with, from its argument (lines 90 to 92).\<close>

definition effective_n :: "int option \<Rightarrow> int" where
  "effective_n arg = (let n0 = (case arg of None \<Rightarrow> 1024 | Some v \<Rightarrow> v) in if n0 \<le> 0 then 1024 else n0)"

text \<open>The usage line that \<open>main\<close> prints when it has no argument.\<close>

definition usage :: "int option \<Rightarrow> event list" where
  "usage arg = (case arg of None \<Rightarrow> [Print_usage] | Some v \<Rightarrow> [])"

section \<open>Properties\<close>

subsection \<open>Merge-select\<close>

declare merge_loop_val.simps [simp del] copy_rest_val.simps [simp del]

lemma copy_rest_eq:
  "len \<le> length src \<Longrightarrow> i \<le> len \<Longrightarrow>
     copy_rest_val src len i tmp = (len, tmp @ drop i (take len src))"
proof (induction src len i tmp rule: copy_rest_val.induct)
  case (1 src len i tmp)
  show ?case
  proof (cases "i < len")
    case True
    then have "drop i (take len src) = src ! i # drop (Suc i) (take len src)"
      using 1(2) by (metis Cons_nth_drop_Suc length_take min.absorb2 nth_take)
    with True 1 show ?thesis by (subst copy_rest_val.simps) simp
  next
    case False
    with 1 show ?thesis by (subst copy_rest_val.simps) simp
  qed
qed

lemma sort_Cons_least:
  fixes x :: int
  assumes "\<forall>y\<in>set xs. x \<le> y"
  shows "sort (x # xs) = x # sort xs"
  using assms by (simp add: insort_is_Cons)

lemma sort_append_Cons_least:
  fixes y :: int
  assumes "\<forall>z\<in>set xs \<union> set ys. y \<le> z"
  shows "sort (xs @ y # ys) = y # sort (xs @ ys)"
proof (rule properties_for_sort)
  show "mset (y # sort (xs @ ys)) = mset (xs @ y # ys)" by simp
  show "sorted (y # sort (xs @ ys))" using assms by auto
qed

lemma sorted_drop_nth_least:
  fixes a :: "int list"
  assumes "sorted a" "i < length a"
  shows "\<forall>z\<in>set (drop (Suc i) a). a ! i \<le> z"
proof
  fix z assume "z \<in> set (drop (Suc i) a)"
  then obtain m where "m < length a - Suc i" "z = a ! (Suc i + m)"
    by (auto simp: in_set_conv_nth)
  with assms show "a ! i \<le> z" by (simp add: sorted_nth_mono)
qed

lemma merge_runs_eq:
  assumes "length a = len" "length b = len" "i \<le> len" "j \<le> len" "sorted a" "sorted b"
  shows "merge_runs a b len i j tmp = tmp @ sort (drop i a @ drop j b)"
  using assms
proof (induction a b len i j tmp rule: merge_loop_val.induct)
  case (1 a b len i j tmp)
  show ?case
  proof (cases "i < len \<and> j < len")
    case False
    then have ml: "merge_loop_val a b len i j tmp = (i, j, tmp)"
      by (subst merge_loop_val.simps) auto
    have "sort (drop i a @ drop j b) = drop i a @ drop j b"
    proof (cases "i < len")
      case True
      with False 1 show ?thesis by (simp add: sorted_wrt_drop sorted_sort_id)
    next
      case False
      with 1 show ?thesis by (simp add: sorted_wrt_drop sorted_sort_id)
    qed
    with ml 1 show ?thesis
      by (simp add: merge_runs_def copy_rest_eq)
  next
    case True
    then have i: "i < len" and j: "j < len" by auto
    have da: "drop i a = a ! i # drop (Suc i) a"
      using i 1 by (simp add: Cons_nth_drop_Suc)
    have db: "drop j b = b ! j # drop (Suc j) b"
      using j 1 by (simp add: Cons_nth_drop_Suc)
    have la: "\<forall>z\<in>set (drop (Suc i) a). a ! i \<le> z"
      using sorted_drop_nth_least 1 i by simp
    have lb: "\<forall>z\<in>set (drop (Suc j) b). b ! j \<le> z"
      using sorted_drop_nth_least 1 j by simp
    show ?thesis
    proof (cases "a ! i \<le> b ! j")
      case le: True
      have ml: "merge_loop_val a b len i j tmp = merge_loop_val a b len (i + 1) j (tmp @ [a ! i])"
        using True le by (subst merge_loop_val.simps) simp
      have "merge_runs a b len (i + 1) j (tmp @ [a ! i])
              = (tmp @ [a ! i]) @ sort (drop (i + 1) a @ drop j b)"
        using "1.IH"(1) [OF True le] 1 i by simp
      moreover have "sort (drop i a @ drop j b) = a ! i # sort (drop (Suc i) a @ drop j b)"
      proof -
        have "\<forall>z\<in>set (drop (Suc i) a @ drop j b). a ! i \<le> z"
          using la lb le by (subst db) auto
        then show ?thesis by (subst da) (simp only: append_Cons sort_Cons_least)
      qed
      ultimately show ?thesis using ml by (simp add: merge_runs_def)
    next
      case gt: False
      have ml: "merge_loop_val a b len i j tmp = merge_loop_val a b len i (j + 1) (tmp @ [b ! j])"
        using True gt by (subst merge_loop_val.simps) simp
      have "merge_runs a b len i (j + 1) (tmp @ [b ! j])
              = (tmp @ [b ! j]) @ sort (drop i a @ drop (j + 1) b)"
        using "1.IH"(2) [OF True gt] 1 j by simp
      moreover have "sort (drop i a @ drop j b) = b ! j # sort (drop i a @ drop (Suc j) b)"
      proof -
        have "\<forall>z\<in>set (drop i a) \<union> set (drop (Suc j) b). b ! j \<le> z"
          using la lb gt by (subst da) auto
        then show ?thesis by (subst db) (rule sort_append_Cons_least)
      qed
      ultimately show ?thesis using ml by (simp add: merge_runs_def)
    qed
  qed
qed

lemma merge_and_select_eq:
  assumes "length a = len" "length b = len" "sorted a" "sorted b"
  shows "merge_and_select_val a b len keep_low =
           (if keep_low then take len (sort (a @ b)) else drop len (sort (a @ b)))"
proof -
  have "merge_runs a b len 0 0 [] = sort (a @ b)"
    using merge_runs_eq [OF assms(1,2) _ _ assms(3,4), of 0 0 "[]"] by simp
  moreover have "merge_and_select_val a b len keep_low =
      (if keep_low then take len (merge_runs a b len 0 0 [])
       else take len (drop len (merge_runs a b len 0 0 [])))"
    by (simp add: merge_and_select_val_def merge_runs_def split: prod.splits)
  ultimately show ?thesis using assms by simp
qed

subsection \<open>The verifier\<close>

declare verify_loop.simps [simp del] verify_scan.simps [simp del]

lemma verify_loop_iff:
  "verify_loop g n i \<longleftrightarrow> (\<forall>m. i \<le> m \<and> m < n \<longrightarrow> g ! (m - 1) \<le> g ! m)"
proof (induction g n i rule: verify_loop.induct)
  case (1 g n i)
  show ?case
  proof (cases "i < n")
    case False
    then show ?thesis by (subst verify_loop.simps) simp
  next
    case True
    show ?thesis
    proof (cases "g ! (i - 1) > g ! i")
      case gt: True
      have "verify_loop g n i = False"
        using True gt by (subst verify_loop.simps) simp
      moreover have "\<not> (\<forall>m. i \<le> m \<and> m < n \<longrightarrow> g ! (m - 1) \<le> g ! m)"
        using True gt by (metis le_refl not_le)
      ultimately show ?thesis by simp
    next
      case le: False
      have "verify_loop g n i = verify_loop g n (i + 1)"
        using True le by (subst verify_loop.simps) simp
      also have "\<dots> \<longleftrightarrow> (\<forall>m. i + 1 \<le> m \<and> m < n \<longrightarrow> g ! (m - 1) \<le> g ! m)"
        using "1.IH" [OF True le] .
      also have "\<dots> \<longleftrightarrow> (\<forall>m. i \<le> m \<and> m < n \<longrightarrow> g ! (m - 1) \<le> g ! m)"
      proof -
        have "g ! (m - 1) \<le> g ! m" if "m = i" for m using le that by simp
        then show ?thesis by (metis Suc_eq_plus1 Suc_leI le_less Suc_leD)
      qed
      finally show ?thesis .
    qed
  qed
qed

lemma verify_scan_first:
  "verify_scan g n i (True, - 1) =
     (if \<forall>m. i \<le> m \<and> m < n \<longrightarrow> g ! (m - 1) \<le> g ! m then (True, - 1)
      else (False, int (LEAST m. i \<le> m \<and> m < n \<and> g ! (m - 1) > g ! m)))"
proof (induction g n i "(True, - 1 :: int)" rule: verify_scan.induct)
  case (1 g n i)
  show ?case
  proof (cases "i < n")
    case False
    then show ?thesis by (subst verify_scan.simps) simp
  next
    case True
    show ?thesis
    proof (cases "g ! (i - 1) > g ! i")
      case gt: True
      have "verify_scan g n i (True, - 1) = (False, int i)"
        using True gt by (subst verify_scan.simps) simp
      moreover have "\<not> (\<forall>m. i \<le> m \<and> m < n \<longrightarrow> g ! (m - 1) \<le> g ! m)"
        using True gt by (metis le_refl not_le)
      moreover have "(LEAST m. i \<le> m \<and> m < n \<and> g ! (m - 1) > g ! m) = i"
        using True gt by (intro Least_equality) auto
      ultimately show ?thesis by simp
    next
      case le: False
      have step: "verify_scan g n i (True, - 1) = verify_scan g n (i + 1) (True, - 1)"
        using True le by (subst verify_scan.simps) simp
      have eq: "(i \<le> m \<and> m < n \<and> g ! (m - 1) > g ! m) \<longleftrightarrow> (i + 1 \<le> m \<and> m < n \<and> g ! (m - 1) > g ! m)" for m
        using le by (cases "m = i") auto
      have all: "(\<forall>m. i \<le> m \<and> m < n \<longrightarrow> g ! (m - 1) \<le> g ! m) \<longleftrightarrow> (\<forall>m. i + 1 \<le> m \<and> m < n \<longrightarrow> g ! (m - 1) \<le> g ! m)"
        using eq by (meson not_le)
      show ?thesis
        unfolding step "1.hyps" [OF True le] all eq ..
    qed
  qed
qed

text \<open>
  Claim C8. Given the gathered array and the logical count \<open>n\<close>, the verifier answers
  "sorted" exactly when every adjacent pair among the first \<open>n\<close> entries is
  non-decreasing; no entry at an index \<open>\<ge> n\<close> is read. This holds for \<open>verify_sorted\<close>
  and for the verifier of \<open>Extra/bitonicMPI.c\<close>, and the latter, when it answers "not
  sorted", reports the first index \<open>i\<close> with \<open>global[i-1] > global[i]\<close> together with
  these two values.
\<close>

theorem verifier_contract:
  assumes "n \<le> length global"
  shows "(verify_sorted global n \<longleftrightarrow> (\<forall>i. 1 \<le> i \<and> i < n \<longrightarrow> global ! (i - 1) \<le> global ! i))
       \<and> (verify_report global n = None \<longleftrightarrow> (\<forall>i. 1 \<le> i \<and> i < n \<longrightarrow> global ! (i - 1) \<le> global ! i))
       \<and> (\<forall>r. verify_report global n = Some r \<longrightarrow>
             (\<exists>i. 1 \<le> i \<and> i < n \<and> r = (int i, global ! (i - 1), global ! i)
                \<and> global ! (i - 1) > global ! i
                \<and> (\<forall>m. 1 \<le> m \<and> m < i \<longrightarrow> global ! (m - 1) \<le> global ! m)))"
proof (intro conjI allI impI)
  show "verify_sorted global n \<longleftrightarrow> (\<forall>i. 1 \<le> i \<and> i < n \<longrightarrow> global ! (i - 1) \<le> global ! i)"
    by (simp add: verify_sorted_def verify_loop_iff)
  show "verify_report global n = None \<longleftrightarrow> (\<forall>i. 1 \<le> i \<and> i < n \<longrightarrow> global ! (i - 1) \<le> global ! i)"
    by (simp add: verify_report_def verify_scan_first)
next
  fix r assume r: "verify_report global n = Some r"
  let ?B = "\<lambda>m. 1 \<le> m \<and> m < n \<and> global ! (m - 1) > global ! m"
  define i where "i = (LEAST m. ?B m)"
  from r have ex: "\<exists>m. ?B m"
    by (auto simp: verify_report_def verify_scan_first split: if_splits)
  then have Bi: "?B i" unfolding i_def by (rule LeastI_ex)
  have least: "\<not> ?B m" if "m < i" for m
    using that not_less_Least unfolding i_def by blast
  have ni: "nat (int i - 1) = i - 1" by arith
  from ex have "verify_report global n = Some (int i, global ! nat (int i - 1), global ! nat (int i))"
    unfolding verify_report_def verify_scan_first i_def by (auto simp: not_le)
  with r have "r = (int i, global ! (i - 1), global ! i)"
    by (simp add: ni)
  moreover have "\<forall>m. 1 \<le> m \<and> m < i \<longrightarrow> global ! (m - 1) \<le> global ! m"
    using least Bi by (metis less_trans not_le)
  ultimately show "\<exists>i. 1 \<le> i \<and> i < n \<and> r = (int i, global ! (i - 1), global ! i)
                \<and> global ! (i - 1) > global ! i
                \<and> (\<forall>m. 1 \<le> m \<and> m < i \<longrightarrow> global ! (m - 1) \<le> global ! m)"
    using Bi by blast
qed

theorem verifier_contract_witness:
  "(6::nat) \<le> length [1, 2, 3, 2, 5, 4 :: int]
   \<and> \<not> verify_sorted [1, 2, 3, 2, 5, 4] 6
   \<and> verify_sorted [1, 2, 3, 2, 5, 4] 3
   \<and> verify_report [1, 2, 3, 2, 5, 4] 6 = Some (3, 3, 2)
   \<and> (\<exists>i. 1 \<le> i \<and> i < 6 \<and> (3, 3, 2) = (int i, [1, 2, 3, 2, 5, 4 :: int] ! (i - 1), [1, 2, 3, 2, 5, 4 :: int] ! i))"
proof -
  have r: "verify_report [1, 2, 3, 2, 5, 4] 6 = Some (3, 3, 2)"
    by (simp add: verify_report_def verify_scan.simps)
  have s3: "verify_sorted [1, 2, 3, 2, 5, 4] 3"
    by (simp add: verify_sorted_def verify_loop.simps)
  have s6: "\<not> verify_sorted [1, 2, 3, 2, 5, 4] 6"
    by (simp add: verify_sorted_def verify_loop.simps)
  from verifier_contract [of 6 "[1, 2, 3, 2, 5, 4]"] r
  have "\<exists>i. 1 \<le> i \<and> i < 6 \<and> (3, 3, 2) = (int i, [1, 2, 3, 2, 5, 4 :: int] ! (i - 1), [1, 2, 3, 2, 5, 4 :: int] ! i)"
    by fastforce
  with r s3 s6 show ?thesis by simp
qed

subsection \<open>The local sorter: frame and permutation\<close>

declare cas_loop_val.simps [simp del] bitonic_merge_recursive_val.simps [simp del]
  bitonic_sort_recursive_val.simps [simp del]

lemma same_outside_refl: "same_outside arr arr low cnt"
  by (simp add: same_outside_def)

lemma same_outside_trans:
  "same_outside a b low cnt \<Longrightarrow> same_outside b c low cnt \<Longrightarrow> same_outside a c low cnt"
  by (simp add: same_outside_def)

lemma same_outside_widen:
  "same_outside a b low' cnt' \<Longrightarrow> low \<le> low' \<Longrightarrow> low' + cnt' \<le> low + cnt \<Longrightarrow>
     same_outside a b low cnt"
  by (auto simp: same_outside_def)

lemma same_outside_swap:
  assumes "low \<le> i" "i < low + cnt" "low \<le> j" "j < low + cnt" "low + cnt \<le> length arr"
  shows "same_outside arr (swap_int arr i j) low cnt"
  using assms by (auto simp: same_outside_def swap_int_def Let_def mset_swap)

lemma same_outside_cas_loop:
  "low \<le> i \<Longrightarrow> low + 2 * k \<le> length arr \<Longrightarrow>
     same_outside arr (cas_loop_val arr low k dir i) low (2 * k)"
proof (induction arr low k dir i rule: cas_loop_val.induct)
  case (1 arr low k dir i)
  show ?case
  proof (cases "i < low + k")
    case False
    then show ?thesis by (subst cas_loop_val.simps) (simp add: same_outside_refl)
  next
    case True
    let ?arr1 = "if dir then (if arr ! i > arr ! (i + k) then swap_int arr i (i + k) else arr)
           else (if arr ! i < arr ! (i + k) then swap_int arr i (i + k) else arr)"
    have sw: "same_outside arr (swap_int arr i (i + k)) low (2 * k)"
      using True 1(2,3) by (intro same_outside_swap) auto
    then have s1: "same_outside arr ?arr1 low (2 * k)"
      by (simp add: same_outside_refl)
    then have "length ?arr1 = length arr" by (simp only: same_outside_def)
    then have "same_outside ?arr1 (cas_loop_val ?arr1 low k dir (i + 1)) low (2 * k)"
      using "1.IH" [OF True] 1(2,3) by simp
    with s1 have "same_outside arr (cas_loop_val ?arr1 low k dir (i + 1)) low (2 * k)"
      by (rule same_outside_trans)
    then show ?thesis using True by (subst cas_loop_val.simps) simp
  qed
qed

lemma same_outside_compare_and_swap:
  "low + 2 * k \<le> length arr \<Longrightarrow>
     same_outside arr (bitonic_compare_and_swap_val arr low k dir) low (2 * k)"
  by (simp add: bitonic_compare_and_swap_val_def same_outside_cas_loop)

lemma same_outside_merge:
  "low + cnt \<le> length arr \<Longrightarrow>
     same_outside arr (bitonic_merge_recursive_val arr low cnt dir) low cnt"
proof (induction arr low cnt dir rule: bitonic_merge_recursive_val.induct)
  case (1 arr low cnt dir)
  show ?case
  proof (cases "cnt \<le> 1")
    case True
    then show ?thesis by (subst bitonic_merge_recursive_val.simps) (simp add: same_outside_refl)
  next
    case False
    define k where "k = cnt div 2"
    define arr1 where "arr1 = bitonic_compare_and_swap_val arr low k dir"
    define arr2 where "arr2 = bitonic_merge_recursive_val arr1 low k dir"
    have k: "2 * k \<le> cnt" by (simp add: k_def)
    have a1: "same_outside arr arr1 low (2 * k)"
      unfolding arr1_def using 1(3) k by (intro same_outside_compare_and_swap) simp
    then have l1: "length arr1 = length arr" by (simp add: same_outside_def)
    have a2: "same_outside arr1 arr2 low k"
      unfolding arr2_def using "1.IH"(1) [OF False k_def arr1_def] l1 1(3) k by simp
    then have l2: "length arr2 = length arr" using l1 by (simp add: same_outside_def)
    have a3: "same_outside arr2 (bitonic_merge_recursive_val arr2 (low + k) k dir) (low + k) k"
      using "1.IH"(2) [OF False k_def arr1_def arr2_def] l2 1(3) k by simp
    have "same_outside arr (bitonic_merge_recursive_val arr2 (low + k) k dir) low cnt"
    proof -
      have w1: "same_outside arr arr1 low cnt"
        using k by (intro same_outside_widen [OF a1]) auto
      have w2: "same_outside arr1 arr2 low cnt"
        using k by (intro same_outside_widen [OF a2]) auto
      have w3: "same_outside arr2 (bitonic_merge_recursive_val arr2 (low + k) k dir) low cnt"
        using k by (intro same_outside_widen [OF a3]) auto
      show ?thesis
        using w1 w2 w3 by (blast intro: same_outside_trans)
    qed
    then show ?thesis
      using False by (subst bitonic_merge_recursive_val.simps) (simp add: Let_def k_def arr1_def arr2_def)
  qed
qed

lemma same_outside_sort:
  "low + cnt \<le> length arr \<Longrightarrow>
     same_outside arr (bitonic_sort_recursive_val arr low cnt dir) low cnt"
proof (induction arr low cnt dir rule: bitonic_sort_recursive_val.induct)
  case (1 arr low cnt dir)
  show ?case
  proof (cases "cnt \<le> 1")
    case True
    then show ?thesis by (subst bitonic_sort_recursive_val.simps) (simp add: same_outside_refl)
  next
    case False
    define k where "k = cnt div 2"
    define arr1 where "arr1 = bitonic_sort_recursive_val arr low k True"
    define arr2 where "arr2 = bitonic_sort_recursive_val arr1 (low + k) k False"
    have k: "2 * k \<le> cnt" by (simp add: k_def)
    have a1: "same_outside arr arr1 low k"
      unfolding arr1_def using "1.IH"(1) [OF False k_def] 1(3) k by simp
    then have l1: "length arr1 = length arr" by (simp add: same_outside_def)
    have a2: "same_outside arr1 arr2 (low + k) k"
      unfolding arr2_def using "1.IH"(2) [OF False k_def arr1_def] l1 1(3) k by simp
    then have l2: "length arr2 = length arr" using l1 by (simp add: same_outside_def)
    have a3: "same_outside arr2 (bitonic_merge_recursive_val arr2 low cnt dir) low cnt"
      using l2 1(3) by (intro same_outside_merge) simp
    have w1: "same_outside arr arr1 low cnt"
      using k by (intro same_outside_widen [OF a1]) auto
    have w2: "same_outside arr1 arr2 low cnt"
      using k by (intro same_outside_widen [OF a2]) auto
    have "same_outside arr (bitonic_merge_recursive_val arr2 low cnt dir) low cnt"
      using w1 w2 a3 by (blast intro: same_outside_trans)
    then show ?thesis
      using False by (subst bitonic_sort_recursive_val.simps) (simp add: Let_def k_def arr1_def arr2_def)
  qed
qed

lemma same_outside_segment:
  assumes "same_outside arr arr' low cnt"
  shows "mset (take cnt (drop low arr')) = mset (take cnt (drop low arr))"
proof -
  have len: "length arr' = length arr" using assms by (simp add: same_outside_def)
  have split: "xs = take low xs @ take cnt (drop low xs) @ drop (low + cnt) xs" for xs :: "int list"
    by (metis add.commute append_take_drop_id drop_drop)
  have pre: "take low arr' = take low arr"
    using assms len by (intro nth_equalityI) (auto simp: same_outside_def)
  have post: "drop (low + cnt) arr' = drop (low + cnt) arr"
    using assms len by (intro nth_equalityI) (auto simp: same_outside_def)
  have "mset arr' = mset (take low arr') + mset (take cnt (drop low arr')) + mset (drop (low + cnt) arr')"
    by (subst split [of arr']) simp
  moreover have "mset arr = mset (take low arr) + mset (take cnt (drop low arr)) + mset (drop (low + cnt) arr)"
    by (subst split [of arr]) simp
  moreover have "mset arr' = mset arr" using assms by (simp add: same_outside_def)
  ultimately show ?thesis using pre post by simp
qed

subsection \<open>The partition sizer\<close>

lemma and_pred_even:
  fixes y :: int
  assumes "0 < y"
  shows "(2 * y) AND (2 * y - 1) = 2 * (y AND (y - 1))"
proof -
  have "(2 * y - 1) div 2 = y - 1" by simp
  moreover have "(2 * y - 1) mod 2 = 1" by presburger
  ultimately show ?thesis
    using assms by (subst and_int_unfold) auto
qed

lemma and_pred_odd:
  fixes y :: int
  assumes "0 < y"
  shows "(2 * y + 1) AND (2 * y + 1 - 1) = 2 * y"
proof -
  have "(2 * y + 1) div 2 = y" by simp
  then show ?thesis
    using assms by (subst and_int_unfold) auto
qed

lemma and_pred_zero_iff:
  fixes x :: int
  assumes "0 < x"
  shows "x AND (x - 1) = 0 \<longleftrightarrow> (\<exists>e::nat. x = 2 ^ e)"
  using assms
proof (induction "nat x" arbitrary: x rule: less_induct)
  case less
  show ?case
  proof (cases "even x")
    case True
    then obtain y where y: "x = 2 * y" by (auto elim: evenE)
    with less.prems have ypos: "0 < y" by simp
    have IH: "y AND (y - 1) = 0 \<longleftrightarrow> (\<exists>e::nat. y = 2 ^ e)"
      using less.hyps [of y] ypos y by simp
    have "(\<exists>e::nat. x = 2 ^ e) \<longleftrightarrow> (\<exists>e::nat. y = 2 ^ e)"
    proof
      assume "\<exists>e::nat. x = 2 ^ e"
      then obtain e :: nat where e: "x = 2 ^ e" by blast
      with True have "e \<noteq> 0" by (cases e) auto
      then obtain e' where "e = Suc e'" by (cases e) auto
      with e y have "y = 2 ^ e'" by simp
      then show "\<exists>e::nat. y = 2 ^ e" by blast
    next
      assume "\<exists>e::nat. y = 2 ^ e"
      then obtain e :: nat where "y = 2 ^ e" by blast
      with y have "x = 2 ^ Suc e" by simp
      then show "\<exists>e::nat. x = 2 ^ e" by blast
    qed
    then show ?thesis using IH and_pred_even [OF ypos] y by simp
  next
    case False
    then obtain y where y: "x = 2 * y + 1" by (auto elim: oddE)
    show ?thesis
    proof (cases "y = 0")
      case True
      with y have "x = 2 ^ (0::nat)" by simp
      moreover from True y have "x AND (x - 1) = 0" by simp
      ultimately show ?thesis by blast
    next
      case ny: False
      with y less.prems have ypos: "0 < y" by simp
      have "x AND (x - 1) \<noteq> 0" using and_pred_odd [OF ypos] y ypos by simp
      moreover have "x \<noteq> 2 ^ e" for e :: nat
      proof (cases e)
        case 0
        with y ypos show ?thesis by simp
      next
        case (Suc e')
        with False show ?thesis by auto
      qed
      ultimately show ?thesis by blast
    qed
  qed
qed

lemma is_power_of_two_iff: "is_power_of_two x \<longleftrightarrow> (\<exists>e::nat. x = 2 ^ e)"
proof (cases "0 < x")
  case True
  then show ?thesis by (simp add: is_power_of_two_def and_pred_zero_iff)
next
  case False
  then have "x \<noteq> 2 ^ e" for e :: nat
    by (metis zero_less_numeral zero_less_power)
  with False show ?thesis by (simp add: is_power_of_two_def)
qed

lemma pow2_le_INT_MAX: "e \<le> 30 \<Longrightarrow> (2::int) ^ e \<le> 1073741824"
  using power_increasing [of e 30 "2::int"] by simp

lemma np2_loop_pow2:
  assumes "a \<le> 30" "n \<le> 2 ^ 30" "a = 0 \<or> 2 ^ (a - 1) < n"
  shows "\<exists>c. np2_loop (2 ^ a) n = Some (2 ^ c) \<and> c \<le> 30 \<and> n \<le> 2 ^ c \<and> (c = 0 \<or> 2 ^ (c - 1) < n)"
  using assms
proof (induction "30 - a" arbitrary: a rule: less_induct)
  case less
  show ?case
  proof (cases "(2::int) ^ a < n")
    case False
    then have "np2_loop (2 ^ a) n = Some (2 ^ a)"
      by (subst np2_loop.simps) simp
    with False less.prems show ?thesis by (intro exI [of _ a]) auto
  next
    case True
    with less.prems(2) have "(2::int) ^ a < 2 ^ 30" by simp
    then have a: "a < 30" using power_increasing [of 30 a "2::int"] by (cases "a < 30") auto
    then have "(2::int) ^ Suc a \<le> 1073741824" by (intro pow2_le_INT_MAX) simp
    then have no: "\<not> 2 * (2::int) ^ a > INT_MAX" by (simp add: INT_MAX_def)
    have step: "np2_loop (2 ^ a) n = np2_loop (2 ^ Suc a) n"
      using True no by (subst np2_loop.simps) simp
    have "\<exists>c. np2_loop (2 ^ Suc a) n = Some (2 ^ c) \<and> c \<le> 30 \<and> n \<le> 2 ^ c \<and> (c = 0 \<or> 2 ^ (c - 1) < n)"
      using less.hyps [of "Suc a"] a less.prems(2) True by simp
    with step show ?thesis by simp
  qed
qed

lemma pad_loop_pow2:
  assumes "c \<le> 30" "e \<le> 30"
  shows "pad_loop (2 ^ c) (2 ^ e) = Some (2 ^ max c e)"
  using assms
proof (induction "e - c" arbitrary: c rule: less_induct)
  case less
  show ?case
  proof (cases "e \<le> c")
    case True
    then have "(2::int) ^ e dvd 2 ^ c" by (simp add: le_imp_power_dvd)
    then have "(2::int) ^ c mod 2 ^ e = 0" by simp
    then have "pad_loop (2 ^ c) (2 ^ e) = Some (2 ^ c)"
      by (subst pad_loop.simps) simp
    with True show ?thesis by (simp add: max_def)
  next
    case False
    then have ce: "c < e" by simp
    then have "(2::int) ^ c < 2 ^ e" by (simp add: power_strict_increasing_iff)
    then have nz: "(2::int) ^ c mod 2 ^ e \<noteq> 0" by simp
    have "(2::int) ^ Suc c \<le> 1073741824" using ce less.prems by (intro pow2_le_INT_MAX) simp
    then have no: "\<not> 2 * (2::int) ^ c > INT_MAX" by (simp add: INT_MAX_def)
    have "pad_loop (2 ^ c) (2 ^ e) = pad_loop (2 ^ Suc c) (2 ^ e)"
      using nz no by (subst pad_loop.simps) simp
    also have "\<dots> = Some (2 ^ max (Suc c) e)"
      using less.hyps [of "Suc c"] ce less.prems by simp
    finally show ?thesis using ce by (simp add: max_def)
  qed
qed

lemma pow2_int_le_INT_MAX:
  assumes "(2::int) ^ e \<le> INT_MAX"
  shows "e \<le> 30"
proof (rule ccontr)
  assume "\<not> e \<le> 30"
  then have "31 \<le> e" by simp
  then have "(2::int) ^ 31 \<le> 2 ^ e" by (intro power_increasing) auto
  with assms show False by (simp add: INT_MAX_def)
qed

lemma pow2_le_imp_exp_le:
  assumes "(2::int) ^ a < n" "n \<le> 2 ^ b"
  shows "a < b"
proof (rule ccontr)
  assume "\<not> a < b"
  then have "(2::int) ^ b \<le> 2 ^ a" by (intro power_increasing) auto
  with assms show False by simp
qed

lemma partition_sizer_pow2:
  assumes "0 < n" "n \<le> 2 ^ 30" "e \<le> 30"
  shows "\<exists>c. next_power_of_two n = Some (2 ^ c) \<and> c \<le> 30 \<and> n \<le> 2 ^ c \<and> (c = 0 \<or> 2 ^ (c - 1) < n)
           \<and> partition_sizer n (2 ^ e) = Some (2 ^ max c e, 2 ^ max c e div 2 ^ e)"
proof -
  from np2_loop_pow2 [of 0 n] assms obtain c where
    c: "np2_loop 1 n = Some (2 ^ c)" "c \<le> 30" "n \<le> 2 ^ c" "c = 0 \<or> 2 ^ (c - 1) < n"
    by auto
  then have np: "next_power_of_two n = Some (2 ^ c)"
    using assms by (simp add: next_power_of_two_def)
  then have "partition_sizer n (2 ^ e) = Some (2 ^ max c e, 2 ^ max c e div 2 ^ e)"
    using pad_loop_pow2 [OF c(2) assms(3)] by (simp add: partition_sizer_def)
  with np c show ?thesis by blast
qed

text \<open>
  Claim C3, amended. For every \<open>n\<close> with \<open>0 < n \<le> 2^30\<close> and every power of two \<open>P\<close> that
  is an \<open>int\<close>, the partition sizer returns \<open>totalSize\<close>, the smallest power of two that is
  both \<open>\<ge> n\<close> and a multiple of \<open>P\<close>, and \<open>localSize = totalSize / P\<close>; \<open>totalSize\<close> is the
  larger of \<open>P\<close> and \<open>next_power_of_two n\<close>, which is the smallest power of two \<open>\<ge> n\<close>.
\<close>

theorem partition_sizer_smallest:
  assumes "0 < n" and "n \<le> 2 ^ 30" and "\<exists>e::nat. P = 2 ^ e" and "P \<le> INT_MAX"
  shows "\<exists>N N0. partition_sizer n P = Some (N, N div P)
           \<and> (\<exists>a::nat. N = 2 ^ a) \<and> n \<le> N \<and> P dvd N
           \<and> (\<forall>M. (\<exists>b::nat. M = 2 ^ b) \<and> n \<le> M \<and> P dvd M \<longrightarrow> N \<le> M)
           \<and> next_power_of_two n = Some N0 \<and> (\<exists>a::nat. N0 = 2 ^ a) \<and> n \<le> N0
           \<and> (\<forall>M. (\<exists>b::nat. M = 2 ^ b) \<and> n \<le> M \<longrightarrow> N0 \<le> M)
           \<and> N = max N0 P"
proof -
  from assms(3) obtain e :: nat where P: "P = 2 ^ e" by blast
  with assms(4) have e: "e \<le> 30" by (simp add: pow2_int_le_INT_MAX)
  from partition_sizer_pow2 [OF assms(1,2) e] obtain c where
    c: "next_power_of_two n = Some (2 ^ c)" "c \<le> 30" "n \<le> 2 ^ c" "c = 0 \<or> 2 ^ (c - 1) < n"
      "partition_sizer n (2 ^ e) = Some (2 ^ max c e, 2 ^ max c e div 2 ^ e)"
    by blast
  have least: "c \<le> b" if "n \<le> 2 ^ b" for b
    using c(4) pow2_le_imp_exp_le [OF _ that, of "c - 1"] by (cases "c = 0") auto
  have "(2::int) ^ c \<le> 2 ^ max c e" by (intro power_increasing) auto
  with c(3) have m1: "n \<le> 2 ^ max c e" by linarith
  have m2: "(2::int) ^ e dvd 2 ^ max c e" by (simp add: le_imp_power_dvd)
  have m3: "(2::int) ^ max c e \<le> M" if M: "\<exists>b::nat. M = 2 ^ b" "n \<le> M" "2 ^ e dvd M" for M
  proof -
    from M(1) obtain b :: nat where b: "M = 2 ^ b" by blast
    have "c \<le> b" using least M(2) b by simp
    moreover have "e \<le> b"
    proof (rule ccontr)
      assume "\<not> e \<le> b"
      then have "(2::int) ^ b < 2 ^ e" by (simp add: power_strict_increasing_iff)
      moreover have "(2::int) ^ e \<le> 2 ^ b"
        using M(3) b by (intro zdvd_imp_le) auto
      ultimately show False by simp
    qed
    ultimately show ?thesis using b by (simp add: power_increasing)
  qed
  have m4: "(2::int) ^ c \<le> M" if M: "\<exists>b::nat. M = 2 ^ b" "n \<le> M" for M
    using M least by (auto simp: power_increasing)
  have m5: "(2::int) ^ max c e = max (2 ^ c) (2 ^ e)"
    by (simp add: max_def power_increasing_iff)
  show ?thesis
    unfolding P
    apply (rule exI [of _ "2 ^ max c e"])
    apply (rule exI [of _ "2 ^ c"])
    using c(1,3,5) m1 m2 m3 m4 m5 by blast
qed

theorem partition_sizer_smallest_witness:
  "(0::int) < 5 \<and> (5::int) \<le> 2 ^ 30 \<and> (4::int) = 2 ^ (2::nat) \<and> (4::int) \<le> INT_MAX
   \<and> partition_sizer 5 4 = Some (8, 2) \<and> next_power_of_two 5 = Some 8"
proof -
  have "\<exists>e::nat. (4::int) = 2 ^ e" by (rule exI [of _ 2]) simp
  from partition_sizer_smallest [of 5 4, OF _ _ this]
  have "\<exists>N. partition_sizer 5 4 = Some (N, N div 4)" by (auto simp: INT_MAX_def)
  moreover have "partition_sizer 5 4 = Some (8, 2)"
    by (simp add: partition_sizer_def next_power_of_two_def np2_loop.simps pad_loop.simps INT_MAX_def)
  moreover have "next_power_of_two 5 = Some 8"
    by (simp add: next_power_of_two_def np2_loop.simps INT_MAX_def)
  ultimately show ?thesis by (simp add: INT_MAX_def)
qed

text \<open>
  The claim as stated, for every positive \<open>n\<close>, fails: for \<open>n = 2^30 + 1\<close> the loop of
  \<open>next_power_of_two\<close> reaches \<open>p = 2^30 < n\<close> and shifts once more, which overflows \<open>int\<close>.
\<close>

theorem partition_sizer_overflow:
  "(0::int) < 1073741825 \<and> (1::int) = 2 ^ (0::nat) \<and> partition_sizer 1073741825 1 = None"
  by (simp add: partition_sizer_def next_power_of_two_def np2_loop.simps INT_MAX_def)

lemma np2_loop_positive:
  assumes "np2_loop p n = Some r"
  shows "0 < p \<longrightarrow> 0 < r"
  by (rule np2_loop.raw_induct [where P = "\<lambda>p n r. 0 < p \<longrightarrow> 0 < r", OF _ assms])
    (auto split: if_splits)

lemma pad_loop_result:
  assumes "pad_loop N sizeP = Some r"
  shows "r mod sizeP = 0 \<and> (0 < N \<longrightarrow> 0 < r)"
  by (rule pad_loop.raw_induct
        [where P = "\<lambda>N sizeP r. r mod sizeP = 0 \<and> (0 < N \<longrightarrow> 0 < r)", OF _ assms])
    (auto split: if_splits)

lemma partition_sizer_local_size:
  assumes "partition_sizer n sizeP = Some (N, local_size)" "0 < sizeP"
  shows "0 < local_size"
proof -
  from assms(1) obtain N0 where N0: "next_power_of_two n = Some N0" "pad_loop N0 sizeP = Some N"
    and ls: "local_size = N div sizeP"
    by (auto simp: partition_sizer_def split: option.splits)
  have "0 < N0"
    using N0(1) np2_loop_positive [of 1 n N0] by (auto simp: next_power_of_two_def split: if_splits)
  with pad_loop_result [OF N0(2)] have "N mod sizeP = 0" "0 < N" by auto
  then have "sizeP \<le> N" using assms(2) by (intro zdvd_imp_le) auto
  then show ?thesis using assms(2) ls by (simp add: pos_imp_zdiv_pos_iff)
qed

subsection \<open>Partner selection\<close>

lemma xor_pow2_cancel: "(r XOR 2 ^ t) XOR 2 ^ t = (r::nat)"
  by (simp add: xor.assoc)

lemma xor_pow2_neq: "r XOR 2 ^ t \<noteq> (r::nat)"
proof
  assume "r XOR 2 ^ t = r"
  then have "r XOR (r XOR 2 ^ t) = r XOR r" by simp
  then have "(2::nat) ^ t = 0" by (simp add: xor.assoc [symmetric])
  then show False by simp
qed

lemma xor_pow2_less:
  fixes r :: nat
  assumes "r < 2 ^ m" "t < m"
  shows "r XOR 2 ^ t < 2 ^ m"
proof -
  have "take_bit m (r XOR 2 ^ t) = r XOR 2 ^ t"
    using assms by (simp add: take_bit_nat_eq_self)
  then show ?thesis by (simp only: take_bit_nat_eq_self_iff)
qed

lemma and_pow2_eq_0_iff: "(r::nat) AND 2 ^ t = 0 \<longleftrightarrow> \<not> bit r t"
  by (rule and_exp_eq_0_iff_not_bit)

lemma bit_xor_pow2: "bit ((r::nat) XOR 2 ^ t) s \<longleftrightarrow> (if s = t then \<not> bit r s else bit r s)"
  by (auto simp: bit_xor_iff bit_exp_iff)

lemma xor_pow2_add:
  fixes r :: nat
  assumes "\<not> bit r t"
  shows "r XOR 2 ^ t = r + 2 ^ t"
proof -
  have "r XOR 2 ^ t = flip_bit t r" by (simp add: flip_bit_eq_xor)
  also have "\<dots> = set_bit t r" using assms by (simp add: flip_bit_eq_if)
  also have "\<dots> = r + 2 ^ t" using assms by (simp add: set_bit_eq)
  finally show ?thesis .
qed

lemma xor_pow2_sub:
  fixes r :: nat
  assumes "bit r t"
  shows "r XOR 2 ^ t = r - 2 ^ t"
proof -
  have "\<not> bit (r XOR 2 ^ t) t" using assms by (simp add: bit_xor_pow2)
  then have "(r XOR 2 ^ t) XOR 2 ^ t = (r XOR 2 ^ t) + 2 ^ t" by (rule xor_pow2_add)
  then show ?thesis by (simp add: xor_pow2_cancel)
qed

lemma select_keep_low_bits:
  "select_keep_low rank (2 ^ s) (2 ^ t) \<longleftrightarrow> (bit rank s \<longleftrightarrow> bit rank t)"
  by (auto simp: select_keep_low_def Let_def and_pow2_eq_0_iff)

lemma select_keep_low_partner:
  assumes "t \<noteq> s"
  shows "select_keep_low (rank XOR 2 ^ t) (2 ^ s) (2 ^ t) \<longleftrightarrow> \<not> select_keep_low rank (2 ^ s) (2 ^ t)"
  using assms by (auto simp: select_keep_low_bits bit_xor_pow2)

lemma sort_append_commute: "sort (a @ b) = sort (b @ (a :: int list))"
  by (rule properties_for_sort) simp_all

lemma exchange_round_nth:
  "rank < sizeP \<Longrightarrow>
     exchange_round sizeP local_size k j parts ! rank =
       merge_and_select_val (parts ! rank) (parts ! (rank XOR j)) local_size (select_keep_low rank k j)"
  by (simp add: exchange_round_def exchange_local_def)

lemma length_exchange_round [simp]: "length (exchange_round sizeP local_size k j parts) = sizeP"
  by (simp add: exchange_round_def)

subsection \<open>The schedule of the network\<close>

lemma run_rounds_Nil [simp]: "run_rounds P L [] st = st"
  by (simp add: run_rounds_def)

lemma run_rounds_Cons [simp]:
  "run_rounds P L ((k, j) # rs) st = run_rounds P L rs (do_round_val P L k j st)"
  by (simp add: run_rounds_def)

lemma run_rounds_append [simp]:
  "run_rounds P L (rs @ rs') st = run_rounds P L rs' (run_rounds P L rs st)"
  by (simp add: run_rounds_def)

lemma phase_rounds_Suc: "phase_rounds s (Suc t) = (2 ^ s, 2 ^ t) # phase_rounds s t"
  by (simp add: phase_rounds_def)

lemma schedule_from_step:
  assumes "s \<le> m"
  shows "schedule_from s m = phase_rounds s s @ schedule_from (Suc s) m"
proof -
  have "[s..<Suc m] = s # [Suc s..<Suc m]"
    using assms by (simp add: upt_conv_Cons del: upt_Suc)
  then show ?thesis by (simp add: schedule_from_def del: upt_Suc)
qed

lemma schedule_from_done: "m < s \<Longrightarrow> schedule_from s m = []"
  by (simp add: schedule_from_def)

lemma pow2_nat_le_INT_MAX:
  assumes "e \<le> 29"
  shows "\<not> 2 * int (2 ^ e) > INT_MAX"
proof -
  have "(2::int) ^ Suc e \<le> 1073741824"
    using assms by (intro pow2_le_INT_MAX) simp
  then show ?thesis by (simp add: INT_MAX_def)
qed

lemma length_phase_rounds [simp]: "length (phase_rounds s t) = t"
  by (simp add: phase_rounds_def)


lemma snd_do_round: "snd (do_round_val P L k j st) = snd st @ [(k, j, fst (do_round_val P L k j st))]"
  by (simp add: do_round_val_def Let_def)

lemma log_run_rounds:
  "map (\<lambda>(k, j, ps). (k, j)) (snd (run_rounds P L rs st)) = map (\<lambda>(k, j, ps). (k, j)) (snd st) @ rs"
proof (induction rs arbitrary: st)
  case Nil
  then show ?case by simp
next
  case (Cons r rs)
  obtain k j where r: "r = (k, j)" by (cases r)
  show ?case unfolding r by (simp add: Cons.IH snd_do_round)
qed

subsection \<open>Bitonic merging of threshold counts\<close>

lemma bshapeI_L:
  assumes "p \<le> q" "\<And>i. i < n \<Longrightarrow> i < p \<or> q < i \<Longrightarrow> f i = L"
    "\<And>i. i < n \<Longrightarrow> p < i \<Longrightarrow> i < q \<Longrightarrow> f i = 0"
  shows "bshape L f n"
  unfolding bshape_def using assms by blast

lemma bshapeI_0:
  assumes "p \<le> q" "\<And>i. i < n \<Longrightarrow> i < p \<or> q < i \<Longrightarrow> f i = 0"
    "\<And>i. i < n \<Longrightarrow> p < i \<Longrightarrow> i < q \<Longrightarrow> f i = L"
  shows "bshape L f n"
  unfolding bshape_def using assms by blast

lemma bshape_const_L: "(\<And>i. i < n \<Longrightarrow> f i = L) \<Longrightarrow> bshape L f n"
  by (rule bshapeI_L [of 0 0]) auto

lemma bshape_const_0: "(\<And>i. i < n \<Longrightarrow> f i = 0) \<Longrightarrow> bshape L f n"
  by (rule bshapeI_0 [of 0 0]) auto

lemma half_clean_L:
  fixes f :: "nat \<Rightarrow> nat"
  assumes pq: "p \<le> q"
    and out: "\<And>i. i < 2 * h \<Longrightarrow> i < p \<or> q < i \<Longrightarrow> f i = L"
    and mid: "\<And>i. i < 2 * h \<Longrightarrow> p < i \<Longrightarrow> i < q \<Longrightarrow> f i = 0"
    and bnd: "\<And>i. i < 2 * h \<Longrightarrow> f i \<le> L"
  defines "lo \<equiv> \<lambda>i. min L (f i + f (h + i))" and "hi \<equiv> \<lambda>i. f i + f (h + i) - L"
  shows "bshape L lo h \<and> bshape L hi h \<and> ((\<forall>i<h. hi i = 0) \<or> (\<forall>i<h. lo i = L))"
proof -
  consider (a) "q < h" | (b) "h \<le> p" | (c) "p < h" "h \<le> q" "p < q - h"
    | (d) "p < h" "h \<le> q" "p = q - h" | (e) "p < h" "h \<le> q" "q - h < p"
    by linarith
  then show ?thesis
  proof cases
    case a
    have s: "f (h + i) = L" if "i < h" for i using out [of "h + i"] that a by simp
    have l: "lo i = L" if "i < h" for i using s that by (simp add: lo_def)
    have u: "hi i = f i" if "i < h" for i using s that by (simp add: hi_def)
    have "bshape L hi h"
      using pq out mid u by (intro bshapeI_L [of p q]) auto
    with l show ?thesis by (simp add: bshape_const_L)
  next
    case b
    have s: "f i = L" if "i < h" for i using out [of i] that b by simp
    have l: "lo i = L" if "i < h" for i using s that by (simp add: lo_def)
    have u: "hi i = f (h + i)" if "i < h" for i using s that by (simp add: hi_def)
    have "bshape L hi h"
    proof (rule bshapeI_L [of "p - h" "q - h"])
      show "p - h \<le> q - h" using pq by simp
      show "hi i = L" if "i < h" "i < p - h \<or> q - h < i" for i
      proof -
        have "h + i < p \<or> q < h + i" using that b by linarith
        then show ?thesis using that out [of "h + i"] u by simp
      qed
      show "hi i = 0" if "i < h" "p - h < i" "i < q - h" for i
      proof -
        have "p < h + i" "h + i < q" using that b by linarith+
        then show ?thesis using that mid [of "h + i"] u by simp
      qed
    qed
    with l show ?thesis by (simp add: bshape_const_L)
  next
    case c
    have f1: "f i = L" if "i < p" for i using out [of i] that c by simp
    have f2: "f i = 0" if "p < i" "i < h" for i using mid [of i] that c by simp
    have g1: "f (h + i) = 0" if "i < q - h" "i < h" for i
      using mid [of "h + i"] that c by simp
    have g2: "f (h + i) = L" if "q - h < i" "i < h" for i using out [of "h + i"] that c by simp
    have u: "hi i = 0" if "i < h" for i
    proof -
      consider "i < p" | "i = p" | "p < i" "i < q - h" | "i = q - h" | "q - h < i" by linarith
      then show ?thesis
        using that f1 f2 g1 g2 c bnd [of i] bnd [of "h + i"] by cases (auto simp: hi_def)
    qed
    have "bshape L lo h"
    proof (rule bshapeI_L [of p "q - h"])
      show "p \<le> q - h" using c by simp
      show "lo i = L" if "i < h" "i < p \<or> q - h < i" for i
        using that f1 f2 g1 g2 c by (auto simp: lo_def)
      show "lo i = 0" if "i < h" "p < i" "i < q - h" for i
        using that f2 [of i] g1 [of i] by (simp add: lo_def)
    qed
    with u show ?thesis by (simp add: bshape_const_0)
  next
    case d
    have f1: "f i = L" if "i < p" for i using out [of i] that d by simp
    have f2: "f i = 0" if "p < i" "i < h" for i using mid [of i] that d by simp
    have g1: "f (h + i) = 0" if "i < p" for i using mid [of "h + i"] that d by simp
    have g2: "f (h + i) = L" if "p < i" "i < h" for i using out [of "h + i"] that d by simp
    have l: "lo i = L" if "i < h" "i \<noteq> p" for i
      using that f1 f2 g1 g2 by (cases "i < p") (auto simp: lo_def)
    have u: "hi i = 0" if "i < h" "i \<noteq> p" for i
      using that f1 f2 g1 g2 by (cases "i < p") (auto simp: hi_def)
    have bl: "bshape L lo h" using l by (intro bshapeI_L [of p p]) auto
    have bu: "bshape L hi h" using u by (intro bshapeI_0 [of p p]) auto
    have "hi p = 0 \<or> lo p = L" by (auto simp: lo_def hi_def)
    then have "(\<forall>i<h. hi i = 0) \<or> (\<forall>i<h. lo i = L)"
      using l u by metis
    with bl bu show ?thesis by simp
  next
    case e
    have f1: "f i = L" if "i < p" for i using out [of i] that e by simp
    have f2: "f i = 0" if "p < i" "i < h" for i using mid [of i] that e by simp
    have g1: "f (h + i) = 0" if "i < q - h" "i < h" for i
      using mid [of "h + i"] that e by simp
    have g2: "f (h + i) = L" if "q - h < i" "i < h" for i using out [of "h + i"] that e by simp
    have l: "lo i = L" if "i < h" for i
    proof -
      consider "i < q - h" | "i = q - h" | "q - h < i" "i < p" | "i = p" | "p < i" by linarith
      then show ?thesis
        using that f1 f2 g1 g2 e bnd [of i] bnd [of "h + i"] by cases (auto simp: lo_def)
    qed
    have "bshape L hi h"
    proof (rule bshapeI_0 [of "q - h" p])
      show "q - h \<le> p" using e by simp
      show "hi i = 0" if "i < h" "i < q - h \<or> p < i" for i
        using that f1 f2 g1 g2 e by (auto simp: hi_def)
      show "hi i = L" if "i < h" "q - h < i" "i < p" for i
        using that f1 g2 by (simp add: hi_def)
    qed
    with l show ?thesis by (simp add: bshape_const_L)
  qed
qed

lemma half_clean_0:
  fixes f :: "nat \<Rightarrow> nat"
  assumes pq: "p \<le> q"
    and out: "\<And>i. i < 2 * h \<Longrightarrow> i < p \<or> q < i \<Longrightarrow> f i = 0"
    and mid: "\<And>i. i < 2 * h \<Longrightarrow> p < i \<Longrightarrow> i < q \<Longrightarrow> f i = L"
    and bnd: "\<And>i. i < 2 * h \<Longrightarrow> f i \<le> L"
  defines "lo \<equiv> \<lambda>i. min L (f i + f (h + i))" and "hi \<equiv> \<lambda>i. f i + f (h + i) - L"
  shows "bshape L lo h \<and> bshape L hi h \<and> ((\<forall>i<h. hi i = 0) \<or> (\<forall>i<h. lo i = L))"
proof -
  consider (a) "q < h" | (b) "h \<le> p" | (c) "p < h" "h \<le> q" "p < q - h"
    | (d) "p < h" "h \<le> q" "p = q - h" | (e) "p < h" "h \<le> q" "q - h < p"
    by linarith
  then show ?thesis
  proof cases
    case a
    have s: "f (h + i) = 0" if "i < h" for i using out [of "h + i"] that a by simp
    have l: "lo i = f i" if "i < h" for i using s that bnd [of i] by (simp add: lo_def)
    have u: "hi i = 0" if "i < h" for i using s that bnd [of i] by (simp add: hi_def)
    have "bshape L lo h"
      using pq out mid l by (intro bshapeI_0 [of p q]) auto
    with u show ?thesis by (simp add: bshape_const_0)
  next
    case b
    have s: "f i = 0" if "i < h" for i using out [of i] that b by simp
    have l: "lo i = f (h + i)" if "i < h" for i using s that bnd [of "h + i"] by (simp add: lo_def)
    have u: "hi i = 0" if "i < h" for i using s that bnd [of "h + i"] by (simp add: hi_def)
    have "bshape L lo h"
    proof (rule bshapeI_0 [of "p - h" "q - h"])
      show "p - h \<le> q - h" using pq by simp
      show "lo i = 0" if "i < h" "i < p - h \<or> q - h < i" for i
      proof -
        have "h + i < p \<or> q < h + i" using that b by linarith
        then show ?thesis using that out [of "h + i"] l by simp
      qed
      show "lo i = L" if "i < h" "p - h < i" "i < q - h" for i
      proof -
        have "p < h + i" "h + i < q" using that b by linarith+
        then show ?thesis using that mid [of "h + i"] l by simp
      qed
    qed
    with u show ?thesis by (simp add: bshape_const_0)
  next
    case c
    have f1: "f i = 0" if "i < p" for i using out [of i] that c by simp
    have f2: "f i = L" if "p < i" "i < h" for i using mid [of i] that c by simp
    have g1: "f (h + i) = L" if "i < q - h" "i < h" for i
      using mid [of "h + i"] that c by simp
    have g2: "f (h + i) = 0" if "q - h < i" "i < h" for i using out [of "h + i"] that c by simp
    have l: "lo i = L" if "i < h" for i
    proof -
      consider "i < p" | "i = p" | "p < i" "i < q - h" | "i = q - h" | "q - h < i" by linarith
      then show ?thesis
        using that f1 f2 g1 g2 c bnd [of i] bnd [of "h + i"] by cases (auto simp: lo_def)
    qed
    have "bshape L hi h"
    proof (rule bshapeI_0 [of p "q - h"])
      show "p \<le> q - h" using c by simp
      show "hi i = 0" if "i < h" "i < p \<or> q - h < i" for i
        using that f1 f2 g1 g2 c by (auto simp: hi_def)
      show "hi i = L" if "i < h" "p < i" "i < q - h" for i
        using that f2 [of i] g1 [of i] by (simp add: hi_def)
    qed
    with l show ?thesis by (simp add: bshape_const_L)
  next
    case d
    have f1: "f i = 0" if "i < p" for i using out [of i] that d by simp
    have f2: "f i = L" if "p < i" "i < h" for i using mid [of i] that d by simp
    have g1: "f (h + i) = L" if "i < p" for i using mid [of "h + i"] that d by simp
    have g2: "f (h + i) = 0" if "p < i" "i < h" for i using out [of "h + i"] that d by simp
    have l: "lo i = L" if "i < h" "i \<noteq> p" for i
      using that f1 f2 g1 g2 by (cases "i < p") (auto simp: lo_def)
    have u: "hi i = 0" if "i < h" "i \<noteq> p" for i
      using that f1 f2 g1 g2 by (cases "i < p") (auto simp: hi_def)
    have bl: "bshape L lo h" using l by (intro bshapeI_L [of p p]) auto
    have bu: "bshape L hi h" using u by (intro bshapeI_0 [of p p]) auto
    have "hi p = 0 \<or> lo p = L" by (auto simp: lo_def hi_def)
    then have "(\<forall>i<h. hi i = 0) \<or> (\<forall>i<h. lo i = L)"
      using l u by metis
    with bl bu show ?thesis by simp
  next
    case e
    have f1: "f i = 0" if "i < p" for i using out [of i] that e by simp
    have f2: "f i = L" if "p < i" "i < h" for i using mid [of i] that e by simp
    have g1: "f (h + i) = L" if "i < q - h" "i < h" for i
      using mid [of "h + i"] that e by simp
    have g2: "f (h + i) = 0" if "q - h < i" "i < h" for i using out [of "h + i"] that e by simp
    have u: "hi i = 0" if "i < h" for i
    proof -
      consider "i < q - h" | "i = q - h" | "q - h < i" "i < p" | "i = p" | "p < i" by linarith
      then show ?thesis
        using that f1 f2 g1 g2 e bnd [of i] bnd [of "h + i"] by cases (auto simp: hi_def)
    qed
    have "bshape L lo h"
    proof (rule bshapeI_L [of "q - h" p])
      show "q - h \<le> p" using e by simp
      show "lo i = L" if "i < h" "i < q - h \<or> p < i" for i
        using that f1 f2 g1 g2 e by (auto simp: lo_def)
      show "lo i = 0" if "i < h" "q - h < i" "i < p" for i
        using that f1 [of i] g2 [of i] by (simp add: lo_def)
    qed
    with u show ?thesis by (simp add: bshape_const_0)
  qed
qed

lemma half_clean:
  fixes f :: "nat \<Rightarrow> nat"
  assumes "bshape L f (2 * h)" and "\<And>i. i < 2 * h \<Longrightarrow> f i \<le> L"
  shows "bshape L (\<lambda>i. min L (f i + f (h + i))) h
       \<and> bshape L (\<lambda>i. f i + f (h + i) - L) h
       \<and> ((\<forall>i<h. f i + f (h + i) - L = 0) \<or> (\<forall>i<h. min L (f i + f (h + i)) = L))"
proof -
  from assms(1) obtain p q where pq: "p \<le> q" and
    sh: "(\<forall>i<2 * h. (i < p \<or> q < i \<longrightarrow> f i = L) \<and> (p < i \<and> i < q \<longrightarrow> f i = 0))
       \<or> (\<forall>i<2 * h. (i < p \<or> q < i \<longrightarrow> f i = 0) \<and> (p < i \<and> i < q \<longrightarrow> f i = L))"
    unfolding bshape_def by blast
  from sh show ?thesis
  proof
    assume a: "\<forall>i<2 * h. (i < p \<or> q < i \<longrightarrow> f i = L) \<and> (p < i \<and> i < q \<longrightarrow> f i = 0)"
    show ?thesis
      by (rule half_clean_L [OF pq _ _ assms(2)]) (use a in auto)
  next
    assume a: "\<forall>i<2 * h. (i < p \<or> q < i \<longrightarrow> f i = 0) \<and> (p < i \<and> i < q \<longrightarrow> f i = L)"
    show ?thesis
      by (rule half_clean_0 [OF pq _ _ assms(2)]) (use a in auto)
  qed
qed

lemma blk_asc_form:
  assumes "blk_asc L f n"
  shows "\<exists>p. (\<forall>i<n. (i < p \<longrightarrow> f i = L) \<and> (p < i \<longrightarrow> f i = 0))"
proof (cases "\<exists>i<n. f i \<noteq> L")
  case False
  then have "\<forall>i<n. (i < n \<longrightarrow> f i = L) \<and> (n < i \<longrightarrow> f i = 0)" by simp
  then show ?thesis by (rule exI)
next
  case True
  then obtain i0 where i0: "i0 < n \<and> f i0 \<noteq> L" by blast
  define p where "p = (LEAST i. i < n \<and> f i \<noteq> L)"
  have p: "p < n \<and> f p \<noteq> L" unfolding p_def using i0 by (rule LeastI)
  have lt: "f i = L" if "i < p" for i
  proof -
    have "\<not> (i < n \<and> f i \<noteq> L)" using that unfolding p_def by (rule not_less_Least)
    moreover have "i < n" using that p by simp
    ultimately show ?thesis by simp
  qed
  have gt: "f i = 0" if "p < i" "i < n" for i
  proof -
    have "0 < f i \<longrightarrow> f p = L" using assms that unfolding blk_asc_def by blast
    with p show ?thesis by simp
  qed
  from lt gt show ?thesis by blast
qed

lemma blk_desc_form:
  assumes "blk_desc L f n"
  shows "\<exists>q. (\<forall>i<n. (i < q \<longrightarrow> f i = 0) \<and> (q < i \<longrightarrow> f i = L))"
proof (cases "\<exists>i<n. f i \<noteq> 0")
  case False
  then have "\<forall>i<n. (i < n \<longrightarrow> f i = 0) \<and> (n < i \<longrightarrow> f i = L)" by simp
  then show ?thesis by (rule exI)
next
  case True
  then obtain i0 where i0: "i0 < n \<and> f i0 \<noteq> 0" by blast
  define q where "q = (LEAST i. i < n \<and> f i \<noteq> 0)"
  have q: "q < n \<and> f q \<noteq> 0" unfolding q_def using i0 by (rule LeastI)
  have lt: "f i = 0" if "i < q" for i
  proof -
    have "\<not> (i < n \<and> f i \<noteq> 0)" using that unfolding q_def by (rule not_less_Least)
    moreover have "i < n" using that q by simp
    ultimately show ?thesis by simp
  qed
  have gt: "f i = L" if "q < i" "i < n" for i
  proof -
    have "0 < f q \<longrightarrow> f i = L" using assms that unfolding blk_desc_def by blast
    with q show ?thesis by simp
  qed
  from lt gt show ?thesis by blast
qed

lemma bshape_asc_desc:
  assumes "blk_asc L f h" and "blk_desc L (\<lambda>i. f (h + i)) h"
  shows "bshape L f (2 * h)"
proof -
  from blk_asc_form [OF assms(1)] obtain p where
    p: "\<And>i. i < h \<Longrightarrow> i < p \<Longrightarrow> f i = L" "\<And>i. i < h \<Longrightarrow> p < i \<Longrightarrow> f i = 0" by blast
  from blk_desc_form [OF assms(2)] obtain q where
    q: "\<And>i. i < h \<Longrightarrow> i < q \<Longrightarrow> f (h + i) = 0" "\<And>i. i < h \<Longrightarrow> q < i \<Longrightarrow> f (h + i) = L" by blast
  define p' where "p' = min p h"
  define q' where "q' = h + min q h"
  have sec: "\<exists>i'. i = h + i' \<and> i' < h" if "h \<le> i" "i < 2 * h" for i
    using that by (intro exI [of _ "i - h"]) auto
  show ?thesis
  proof (rule bshapeI_L [of p' q'])
    show "p' \<le> q'" by (simp add: p'_def q'_def)
    show "f i = L" if "i < 2 * h" "i < p' \<or> q' < i" for i
    proof (cases "i < h")
      case True
      with that(2) have "i < p" by (simp add: p'_def q'_def)
      with True show ?thesis by (rule p(1))
    next
      case False
      then have "h \<le> i" by simp
      from sec [OF this that(1)] obtain i' where i': "i = h + i'" "i' < h" by blast
      with that(2) have "q < i'" by (simp add: p'_def q'_def)
      with i' show ?thesis by (simp add: q(2))
    qed
    show "f i = 0" if "i < 2 * h" "p' < i" "i < q'" for i
    proof (cases "i < h")
      case True
      with that(2) have "p < i" by (simp add: p'_def)
      with True show ?thesis by (rule p(2))
    next
      case False
      then have "h \<le> i" by simp
      from sec [OF this that(1)] obtain i' where i': "i = h + i'" "i' < h" by blast
      with that(3) have "i' < q" by (simp add: q'_def)
      with i' show ?thesis by (simp add: q(1))
    qed
  qed
qed

subsection \<open>The network on threshold counts\<close>

lemma bit_nat_iff_mod: "bit (r::nat) t \<longleftrightarrow> 2 ^ t \<le> r mod 2 ^ Suc t"
proof -
  define h :: nat where "h = 2 ^ t"
  have a: "r mod (h * 2) = h * (r div h mod 2) + r mod h"
    by (rule mod_mult2_eq)
  have b: "r mod h < h" by (simp add: h_def)
  have "h \<le> r mod (h * 2) \<longleftrightarrow> r div h mod 2 = 1"
  proof (cases "r div h mod 2 = 0")
    case True
    with a b show ?thesis by simp
  next
    case False
    then have "r div h mod 2 = 1" by presburger
    with a show ?thesis by simp
  qed
  then show ?thesis
    by (simp add: bit_iff_odd odd_iff_mod_2_eq_one h_def mult.commute)
qed

lemma xor_pow2_lower:
  fixes r :: nat
  assumes "r mod 2 ^ Suc t < 2 ^ t"
  shows "r XOR 2 ^ t = r + 2 ^ t"
  using assms by (intro xor_pow2_add) (simp add: bit_nat_iff_mod)

lemma xor_pow2_upper:
  fixes r :: nat
  assumes "2 ^ t \<le> r mod 2 ^ Suc t"
  shows "r XOR 2 ^ t = r - 2 ^ t"
  using assms by (intro xor_pow2_sub) (simp add: bit_nat_iff_mod)

lemma window_decomp:
  fixes r w :: nat
  shows "r = (r div w) * w + r mod w"
  by simp

lemma div_window:
  fixes b i w :: nat
  assumes "i < w"
  shows "(b * w + i) div w = b" and "(b * w + i) mod w = i"
  using assms by simp_all

lemma xor_pow2_div: "((r::nat) XOR 2 ^ t) div 2 ^ Suc t = r div 2 ^ Suc t"
proof -
  define w :: nat where "w = 2 ^ Suc t"
  define h :: nat where "h = 2 ^ t"
  define q where "q = r div w"
  define i where "i = r mod w"
  have w: "w = 2 * h" by (simp add: w_def h_def)
  have r: "r = q * w + i" by (simp add: q_def i_def)
  have iw: "i < w" by (simp add: i_def w_def)
  show ?thesis
  proof (cases "i < h")
    case True
    then have "r XOR 2 ^ t = r + h"
      unfolding h_def i_def w_def by (rule xor_pow2_lower)
    also have "\<dots> = q * w + (i + h)" using r by simp
    finally have "(r XOR 2 ^ t) div w = q"
      using True w by (simp only: div_window)
    then show ?thesis by (simp only: w_def q_def)
  next
    case False
    then have hi: "h \<le> i" by simp
    then have "r XOR 2 ^ t = r - h"
      unfolding h_def i_def w_def by (rule xor_pow2_upper)
    also have "\<dots> = q * w + (i - h)" using r hi by simp
    finally have "(r XOR 2 ^ t) div w = q"
      using iw by (simp only: div_window less_imp_diff_less)
    then show ?thesis by (simp only: w_def q_def)
  qed
qed

lemma div_pow2_coarser:
  fixes r r' :: nat
  assumes "r div 2 ^ t = r' div 2 ^ t" "t \<le> s"
  shows "r div 2 ^ s = r' div 2 ^ s"
proof -
  have "r div 2 ^ s = (r div 2 ^ t) div 2 ^ (s - t)" for r :: nat
    using assms(2) by (metis div_mult2_eq le_add_diff_inverse power_add)
  then show ?thesis using assms(1) by simp
qed

lemma bshape_cong:
  assumes "\<And>i. i < n \<Longrightarrow> f i = g i"
  shows "bshape L f n \<longleftrightarrow> bshape L g n"
  unfolding bshape_def using assms by simp

lemma same_window_halves:
  fixes r r' h :: nat
  assumes "r < r'" "r div (2 * h) = r' div (2 * h)" "r div h \<noteq> r' div h" "0 < h"
  shows "r mod (2 * h) < h \<and> h \<le> r' mod (2 * h)"
proof -
  define q where "q = r div (2 * h)"
  define i where "i = r mod (2 * h)"
  define i' where "i' = r' mod (2 * h)"
  have r: "r = q * (2 * h) + i" by (simp only: q_def i_def div_mult_mod_eq)
  have r': "r' = q * (2 * h) + i'" by (simp only: q_def i'_def assms(2) div_mult_mod_eq)
  have lt: "i < i'" using assms(1) r r' by simp
  have i'w: "i' < 2 * h" using assms(4) by (simp add: i'_def)
  have hn: "h \<noteq> 0" using assms(4) by simp
  have d: "(q * (2 * h) + x) div h = 2 * q + x div h" for x
  proof -
    have "q * (2 * h) + x = x + (2 * q) * h" by simp
    then show ?thesis using div_mult_self1 [OF hn, of x "2 * q"] by (simp only:)
  qed
  have ne: "i div h \<noteq> i' div h" using assms(3) r r' d by simp
  have "i < h"
  proof (rule ccontr)
    assume "\<not> i < h"
    then have "h \<le> i" "h \<le> i'" using lt by simp_all
    then have "i div h = 1" "i' div h = 1"
      using lt i'w assms(4) by (simp_all add: div_nat_eqI)
    with ne show False by simp
  qed
  moreover have "h \<le> i'"
  proof (rule ccontr)
    assume "\<not> h \<le> i'"
    then have "i' < h" "i < h" using lt by simp_all
    then have "i div h = 0" "i' div h = 0" by simp_all
    with ne show False by simp
  qed
  ultimately show ?thesis by (simp add: i_def i'_def)
qed

lemma net_inv_round:
  assumes inv: "net_inv L m s (Suc t) c" and ts: "t < s" and sm: "s \<le> m"
  shows "net_inv L m s t (round_cnt L s t c)"
proof -
  define h :: nat where "h = 2 ^ t"
  define w :: nat where "w = 2 ^ Suc t"
  define c' where "c' = round_cnt L s t c"
  have wh: "w = 2 * h" by (simp add: w_def h_def)
  have hpos: "0 < h" by (simp add: h_def)
  have tm: "t < m" using ts sm by simp
  have bnd: "c r \<le> L" if "r < 2 ^ m" for r
    using inv that unfolding net_inv_def by blast
  have shp: "bshape L (\<lambda>i. c (b * w + i)) w" if "b * w < 2 ^ m" for b
    using inv that unfolding net_inv_def w_def by blast
  have ord: "if even (r div 2 ^ s) then (0 < c r' \<longrightarrow> c r = L) else (0 < c r \<longrightarrow> c r' = L)"
    if "r < r'" "r' < 2 ^ m" "r div 2 ^ s = r' div 2 ^ s" "r div w \<noteq> r' div w" for r r'
    using inv that unfolding net_inv_def w_def by blast
  have part: "r XOR 2 ^ t < 2 ^ m" if "r < 2 ^ m" for r :: nat
    using that tm by (rule xor_pow2_less)
  have pdiv: "(r XOR 2 ^ t) div w = r div w" for r
    unfolding w_def by (rule xor_pow2_div)
  have grp: "r div 2 ^ s = r' div 2 ^ s" if "r div w = r' div w" for r r' :: nat
    using that ts unfolding w_def by (intro div_pow2_coarser [of r "Suc t" r' s]) simp_all
  have wdvd: "w dvd 2 ^ m" unfolding w_def using tm by (intro le_imp_power_dvd) simp
  have win_lt: "b * w + i < 2 ^ m" if "b * w < 2 ^ m" "i < w" for b i
  proof -
    from wdvd obtain n where n: "(2::nat) ^ m = w * n" by (auto elim: dvdE)
    with that(1) have "b < n" by (simp add: mult.commute)
    then have "Suc b \<le> n" by simp
    then have "Suc b * w \<le> n * w" by (rule mult_le_mono1)
    with that(2) n show ?thesis by (simp add: mult.commute)
  qed
  have dir: "even ((b * w + i) div 2 ^ s) \<longleftrightarrow> even (b * w div 2 ^ s)" if "i < w" for b i
  proof -
    have "(b * w + i) div w = b" using that by (rule div_window)
    moreover have "(b * w + 0) div w = b" using that by (intro div_window) simp
    ultimately have "(b * w + i) div w = (b * w) div w" by simp
    then have "(b * w + i) div 2 ^ s = (b * w) div 2 ^ s" by (rule grp)
    then show ?thesis by simp
  qed
  have lower: "c' (b * w + i) =
      (if even (b * w div 2 ^ s) then min L (c (b * w + i) + c (b * w + (h + i)))
       else c (b * w + i) + c (b * w + (h + i)) - L)" if "i < h" for b i
  proof -
    have iw: "i < w" using that wh by simp
    have "(b * w + i) mod w = i" using iw by simp
    then have m: "(b * w + i) mod 2 ^ Suc t < 2 ^ t" using that by (simp add: w_def h_def)
    then have nb: "\<not> bit (b * w + i) t" by (simp add: bit_nat_iff_mod)
    have x: "(b * w + i) XOR 2 ^ t = b * w + (h + i)"
      using xor_pow2_lower [OF m] by (simp add: h_def)
    show ?thesis
      using nb x dir [OF iw, of b] by (simp add: c'_def round_cnt_def bit_iff_odd [of _ s])
  qed
  have upper: "c' (b * w + (h + i)) =
      (if even (b * w div 2 ^ s) then c (b * w + i) + c (b * w + (h + i)) - L
       else min L (c (b * w + i) + c (b * w + (h + i))))" if "i < h" for b i
  proof -
    have iw: "h + i < w" using that wh by simp
    have "(b * w + (h + i)) mod w = h + i" using iw by simp
    then have m: "2 ^ t \<le> (b * w + (h + i)) mod 2 ^ Suc t" by (simp add: w_def h_def)
    then have nb: "bit (b * w + (h + i)) t" by (simp add: bit_nat_iff_mod)
    have x: "(b * w + (h + i)) XOR 2 ^ t = b * w + i"
      using xor_pow2_upper [OF m] by (simp add: h_def)
    show ?thesis
      using nb x dir [OF iw, of b]
      by (simp add: c'_def round_cnt_def bit_iff_odd [of _ s] add.commute)
  qed
  have hc: "bshape L (\<lambda>i. min L (c (b * w + i) + c (b * w + (h + i)))) h
       \<and> bshape L (\<lambda>i. c (b * w + i) + c (b * w + (h + i)) - L) h
       \<and> ((\<forall>i<h. c (b * w + i) + c (b * w + (h + i)) - L = 0)
          \<or> (\<forall>i<h. min L (c (b * w + i) + c (b * w + (h + i))) = L))"
    if "b * w < 2 ^ m" for b
  proof -
    have "bshape L (\<lambda>i. c (b * w + i)) (2 * h)" using shp [OF that] wh by simp
    moreover have "c (b * w + i) \<le> L" if "i < 2 * h" for i
      using win_lt [OF \<open>b * w < 2 ^ m\<close>, of i] that wh bnd by simp
    ultimately show ?thesis by (rule half_clean)
  qed
  have b1: "c' r \<le> L" if "r < 2 ^ m" for r
    using bnd [OF that] bnd [OF part [OF that]] by (auto simp: c'_def round_cnt_def)
  have b2: "bshape L (\<lambda>i. c' (b * h + i)) h" if "b * h < 2 ^ m" for b
  proof (cases "even b")
    case True
    then obtain b' where b': "b = 2 * b'" by (auto elim: evenE)
    then have bw: "b * h = b' * w" by (simp add: wh)
    with that have lt: "b' * w < 2 ^ m" by simp
    have "bshape L (\<lambda>i. c' (b' * w + i)) h \<longleftrightarrow>
        bshape L (\<lambda>i. if even (b' * w div 2 ^ s) then min L (c (b' * w + i) + c (b' * w + (h + i)))
           else c (b' * w + i) + c (b' * w + (h + i)) - L) h"
      by (rule bshape_cong) (rule lower)
    then show ?thesis
      using hc [OF lt] by (cases "even (b' * w div 2 ^ s)") (simp_all add: bw)
  next
    case False
    then obtain b' where b': "b = 2 * b' + 1" by (auto elim: oddE)
    then have bw: "b * h = b' * w + h" by (simp add: wh algebra_simps)
    with that have lt: "b' * w < 2 ^ m" by simp
    have "bshape L (\<lambda>i. c' (b' * w + (h + i))) h \<longleftrightarrow>
        bshape L (\<lambda>i. if even (b' * w div 2 ^ s) then c (b' * w + i) + c (b' * w + (h + i)) - L
           else min L (c (b' * w + i) + c (b' * w + (h + i)))) h"
      by (rule bshape_cong) (rule upper)
    then show ?thesis
      using hc [OF lt] by (cases "even (b' * w div 2 ^ s)") (simp_all add: bw add.assoc)
  qed
  have b3: "if even (r div 2 ^ s) then (0 < c' r' \<longrightarrow> c' r = L) else (0 < c' r \<longrightarrow> c' r' = L)"
    if rr: "r < r'" "r' < 2 ^ m" "r div 2 ^ s = r' div 2 ^ s" "r div h \<noteq> r' div h" for r r'
  proof (cases "r div w = r' div w")
    case True
    define b where "b = r div w"
    from same_window_halves [OF rr(1) _ rr(4) hpos] True
    have halves: "r mod w < h" "h \<le> r' mod w" by (simp_all add: wh)
    define i where "i = r mod w"
    define i' where "i' = r' mod w - h"
    have r: "r = b * w + i" by (simp add: b_def i_def)
    have r': "r' = b * w + (h + i')" using True halves by (simp add: b_def i'_def)
    have i: "i < h" using halves by (simp add: i_def)
    have "r' mod w < 2 * h" using hpos by (simp add: wh)
    then have i': "i' < h" unfolding i'_def using halves by linarith
    have lt: "b * w < 2 ^ m" using rr(2) r' by simp
    have ev: "even (r div 2 ^ s) \<longleftrightarrow> even (b * w div 2 ^ s)"
      unfolding r using i wh by (intro dir) simp
    from hc [OF lt] have dom:
      "(\<forall>i<h. c (b * w + i) + c (b * w + (h + i)) - L = 0)
       \<or> (\<forall>i<h. min L (c (b * w + i) + c (b * w + (h + i))) = L)" by simp
    have lo: "c' r = (if even (b * w div 2 ^ s) then min L (c (b * w + i) + c (b * w + (h + i)))
       else c (b * w + i) + c (b * w + (h + i)) - L)"
      unfolding r by (rule lower [OF i])
    have up: "c' r' = (if even (b * w div 2 ^ s) then c (b * w + i') + c (b * w + (h + i')) - L
       else min L (c (b * w + i') + c (b * w + (h + i'))))"
      unfolding r' by (rule upper [OF i'])
    from dom show ?thesis
    proof
      assume z: "\<forall>i<h. c (b * w + i) + c (b * w + (h + i)) - L = 0"
      from z i have "c (b * w + i) + c (b * w + (h + i)) - L = 0" by blast
      moreover from z i' have "c (b * w + i') + c (b * w + (h + i')) - L = 0" by blast
      ultimately show ?thesis unfolding ev lo up by simp
    next
      assume f: "\<forall>i<h. min L (c (b * w + i) + c (b * w + (h + i))) = L"
      from f i have "min L (c (b * w + i) + c (b * w + (h + i))) = L" by blast
      moreover from f i' have "min L (c (b * w + i') + c (b * w + (h + i'))) = L" by blast
      ultimately show ?thesis unfolding ev lo up by simp
    qed
  next
    case False
    define p where "p = r XOR 2 ^ t"
    define p' where "p' = r' XOR 2 ^ t"
    have rm: "r < 2 ^ m" using rr by simp
    have pm: "p < 2 ^ m" "p' < 2 ^ m" using part rm rr(2) by (simp_all add: p_def p'_def)
    have pd: "p div w = r div w" "p' div w = r' div w" by (simp_all add: p_def p'_def pdiv)
    have "r div w \<le> r' div w" using rr(1) by (simp add: div_le_mono)
    with False have dl: "r div w < r' div w" by simp
    have less: "x < y" if "x div w = r div w" "y div w = r' div w" for x y
    proof (rule ccontr)
      assume "\<not> x < y"
      then have "y div w \<le> x div w" by (simp add: div_le_mono)
      with that dl show False by simp
    qed
    have o: "if even (r div 2 ^ s) then (0 < c y \<longrightarrow> c x = L) else (0 < c x \<longrightarrow> c y = L)"
      if "x div w = r div w" "y div w = r' div w" "y < 2 ^ m" for x y
    proof -
      have g: "x div 2 ^ s = r div 2 ^ s" "y div 2 ^ s = r' div 2 ^ s"
        by (rule grp, rule that(1)) (rule grp, rule that(2))
      have "x div w \<noteq> y div w" using that dl by simp
      from ord [OF less [OF that(1,2)] that(3) _ this] g rr(3) show ?thesis by simp
    qed
    note o1 = o [OF refl refl rr(2)] and o2 = o [OF pd(1) refl rr(2)]
      and o3 = o [OF refl pd(2) pm(2)] and o4 = o [OF pd(1) pd(2) pm(2)]
    have cr: "c' r = (if bit r s \<longleftrightarrow> bit r t then min L (c r + c p) else c r + c p - L)"
      by (simp add: c'_def round_cnt_def p_def)
    have cr': "c' r' = (if bit r' s \<longleftrightarrow> bit r' t then min L (c r' + c p') else c r' + c p' - L)"
      by (simp add: c'_def round_cnt_def p'_def)
    show ?thesis
    proof (cases "even (r div 2 ^ s)")
      case True
      have "c' r = L" if "0 < c' r'"
      proof -
        from that have "0 < c r' \<or> 0 < c p'" unfolding cr' by (auto split: if_splits)
        moreover have "0 < c r' \<longrightarrow> c r = L" "0 < c r' \<longrightarrow> c p = L"
          "0 < c p' \<longrightarrow> c r = L" "0 < c p' \<longrightarrow> c p = L"
          using True o1 o2 o3 o4 by simp_all
        ultimately have "c r = L \<and> c p = L" by blast
        then show ?thesis unfolding cr by simp
      qed
      with True show ?thesis by simp
    next
      case odd: False
      have "c' r' = L" if "0 < c' r"
      proof -
        from that have "0 < c r \<or> 0 < c p" unfolding cr by (auto split: if_splits)
        moreover have "0 < c r \<longrightarrow> c r' = L" "0 < c p \<longrightarrow> c r' = L"
          "0 < c r \<longrightarrow> c p' = L" "0 < c p \<longrightarrow> c p' = L"
          using odd o1 o2 o3 o4 by simp_all
        ultimately have "c r' = L \<and> c p' = L" by blast
        then show ?thesis unfolding cr' by simp
      qed
      with odd show ?thesis by simp
    qed
  qed
  show ?thesis
    unfolding net_inv_def c'_def [symmetric] h_def [symmetric]
  proof (intro conjI allI impI)
    fix r :: nat assume "r < 2 ^ m"
    then show "c' r \<le> L" by (rule b1)
  next
    fix b :: nat assume "b * h < 2 ^ m"
    then show "bshape L (\<lambda>i. c' (b * h + i)) h" by (rule b2)
  next
    fix r r' :: nat assume a: "r < r' \<and> r' < 2 ^ m \<and> r div 2 ^ s = r' div 2 ^ s \<and> r div h \<noteq> r' div h"
    show "if even (r div 2 ^ s) then (0 < c' r' \<longrightarrow> c' r = L) else (0 < c' r \<longrightarrow> c' r' = L)"
      by (rule b3) (use a in simp_all)
  qed
qed

lemma net_inv_init:
  assumes "\<And>r. r < 2 ^ m \<Longrightarrow> c r \<le> L"
  shows "net_inv L m 0 0 c"
  unfolding net_inv_def
proof (intro conjI allI impI)
  fix r :: nat assume "r < 2 ^ m"
  then show "c r \<le> L" by (rule assms)
next
  fix b :: nat
  show "bshape L (\<lambda>i. c (b * 2 ^ 0 + i)) (2 ^ 0)"
    by (rule bshapeI_L [of 0 0]) auto
next
  fix r r' :: nat
  assume "r < r' \<and> r' < 2 ^ m \<and> r div 2 ^ 0 = r' div 2 ^ 0 \<and> r div 2 ^ 0 \<noteq> r' div 2 ^ 0"
  then show "if even (r div 2 ^ 0) then (0 < c r' \<longrightarrow> c r = L) else (0 < c r \<longrightarrow> c r' = L)"
    by simp
qed

lemma net_inv_phase:
  assumes inv: "net_inv L m s 0 c" and sm: "s < m"
  shows "net_inv L m (Suc s) (Suc s) c"
proof -
  define h :: nat where "h = 2 ^ s"
  define w :: nat where "w = 2 ^ Suc s"
  have wh: "w = 2 * h" by (simp add: w_def h_def)
  have hpos: "0 < h" by (simp add: h_def)
  have bnd: "c r \<le> L" if "r < 2 ^ m" for r
    using inv that unfolding net_inv_def by blast
  have ord: "if even (r div h) then (0 < c r' \<longrightarrow> c r = L) else (0 < c r \<longrightarrow> c r' = L)"
    if "r < r'" "r' < 2 ^ m" "r div h = r' div h" for r r'
  proof -
    from inv have "r < r' \<and> r' < 2 ^ m \<and> r div 2 ^ s = r' div 2 ^ s \<and> r div 2 ^ 0 \<noteq> r' div 2 ^ 0
        \<longrightarrow> (if even (r div 2 ^ s) then (0 < c r' \<longrightarrow> c r = L) else (0 < c r \<longrightarrow> c r' = L))"
      unfolding net_inv_def by blast
    with that show ?thesis by (simp add: h_def)
  qed
  have wdvd: "w dvd 2 ^ m" unfolding w_def using sm by (intro le_imp_power_dvd) simp
  have win_lt: "b * w + i < 2 ^ m" if "b * w < 2 ^ m" "i < w" for b i
  proof -
    from wdvd obtain n where n: "(2::nat) ^ m = w * n" by (auto elim: dvdE)
    with that(1) have "b < n" by (simp add: mult.commute)
    then have "Suc b \<le> n" by simp
    then have "Suc b * w \<le> n * w" by (rule mult_le_mono1)
    with that(2) n show ?thesis by (simp add: mult.commute)
  qed
  have hn: "h \<noteq> 0" using hpos by simp
  have d1: "(b * w + i) div h = 2 * b" if "i < h" for b i
  proof -
    have e: "b * w + i = i + (2 * b) * h" by (simp add: wh)
    have "(i + (2 * b) * h) div h = 2 * b + i div h" by (rule div_mult_self1 [OF hn])
    then have "(b * w + i) div h = 2 * b + i div h" unfolding e .
    with that show ?thesis by simp
  qed
  have d2: "(b * w + (h + i)) div h = 2 * b + 1" if "i < h" for b i
  proof -
    have e: "b * w + (h + i) = i + (2 * b + 1) * h" by (simp add: wh)
    have "(i + (2 * b + 1) * h) div h = 2 * b + 1 + i div h" by (rule div_mult_self1 [OF hn])
    then have "(b * w + (h + i)) div h = 2 * b + 1 + i div h" unfolding e .
    with that show ?thesis by simp
  qed
  have shape: "bshape L (\<lambda>i. c (b * w + i)) w" if lt: "b * w < 2 ^ m" for b
  proof -
    have "blk_asc L (\<lambda>i. c (b * w + i)) h"
      unfolding blk_asc_def
    proof (intro allI impI)
      fix i i' :: nat assume a: "i < i' \<and> i' < h" and pos: "0 < c (b * w + i')"
      have "b * w + i' < 2 ^ m" using a wh by (intro win_lt [OF lt]) simp
      from ord [of "b * w + i" "b * w + i'", OF _ this] a pos
      show "c (b * w + i) = L" by (simp add: d1)
    qed
    moreover have "blk_desc L (\<lambda>i. c (b * w + (h + i))) h"
      unfolding blk_desc_def
    proof (intro allI impI)
      fix i i' :: nat assume a: "i < i' \<and> i' < h" and pos: "0 < c (b * w + (h + i))"
      have "b * w + (h + i') < 2 ^ m" using a wh by (intro win_lt [OF lt]) simp
      from ord [of "b * w + (h + i)" "b * w + (h + i')", OF _ this] a pos
      show "c (b * w + (h + i')) = L" by (simp add: d2)
    qed
    ultimately have "bshape L (\<lambda>i. c (b * w + i)) (2 * h)"
      by (intro bshape_asc_desc) (simp_all add: add.assoc)
    then show ?thesis by (simp add: wh)
  qed
  show ?thesis
    unfolding net_inv_def w_def [symmetric]
  proof (intro conjI allI impI)
    fix r :: nat assume "r < 2 ^ m"
    then show "c r \<le> L" by (rule bnd)
  next
    fix b :: nat assume "b * w < 2 ^ m"
    then show "bshape L (\<lambda>i. c (b * w + i)) w" by (rule shape)
  next
    fix r r' :: nat
    assume "r < r' \<and> r' < 2 ^ m \<and> r div w = r' div w \<and> r div w \<noteq> r' div w"
    then show "if even (r div w) then (0 < c r' \<longrightarrow> c r = L) else (0 < c r \<longrightarrow> c r' = L)"
      by simp
  qed
qed

lemma net_inv_final:
  assumes "net_inv L m m 0 c" "r < r'" "r' < 2 ^ m" "0 < c r'"
  shows "c r = L"
proof -
  have "r div 2 ^ m = 0" "r' div 2 ^ m = 0" using assms(2,3) by simp_all
  then show ?thesis
    using assms unfolding net_inv_def by (metis div_by_1 even_zero less_irrefl power_0)
qed

lemma net_inv_cong:
  assumes "\<And>r. r < 2 ^ m \<Longrightarrow> c r = c' r" and "t \<le> m"
  shows "net_inv L m s t c \<longleftrightarrow> net_inv L m s t c'"
proof -
  have wdvd: "(2::nat) ^ t dvd 2 ^ m" using assms(2) by (rule le_imp_power_dvd)
  have win_lt: "b * 2 ^ t + i < 2 ^ m" if "b * 2 ^ t < 2 ^ m" "i < 2 ^ t" for b i :: nat
  proof -
    from wdvd obtain n where n: "(2::nat) ^ m = 2 ^ t * n" by (auto elim: dvdE)
    with that(1) have "b < n" by (simp add: mult.commute)
    then have "Suc b \<le> n" by simp
    then have "Suc b * 2 ^ t \<le> n * 2 ^ t" by (rule mult_le_mono1)
    with that(2) n show ?thesis by (simp add: mult.commute)
  qed
  have sh: "bshape L (\<lambda>i. c (b * 2 ^ t + i)) (2 ^ t) \<longleftrightarrow> bshape L (\<lambda>i. c' (b * 2 ^ t + i)) (2 ^ t)"
    if "b * 2 ^ t < 2 ^ m" for b
    by (rule bshape_cong) (use that win_lt assms(1) in simp)
  have eq: "c r = c' r" if "r < 2 ^ m" for r using assms(1) that .
  have lt: "r < 2 ^ m" if "r < r'" "r' < 2 ^ m" for r r' :: nat using that by simp
  show ?thesis
    unfolding net_inv_def
    apply (intro arg_cong2 [where f = "(\<and>)"] all_cong1 imp_cong refl)
    using eq sh lt by auto
qed

subsection \<open>Threshold counts of partitions\<close>

lemma cnt_le_append [simp]: "cnt_le x (xs @ ys) = cnt_le x xs + cnt_le x ys"
  by (simp add: cnt_le_def)

lemma cnt_le_le_length: "cnt_le x xs \<le> length xs"
  by (simp add: cnt_le_def)

lemma cnt_le_mset: "mset xs = mset ys \<Longrightarrow> cnt_le x xs = cnt_le x ys"
  unfolding cnt_le_def by (metis mset_filter size_mset)

lemma cnt_le_sort [simp]: "cnt_le x (sort xs) = cnt_le x xs"
  by (rule cnt_le_mset) simp

lemma cnt_le_take:
  "sorted xs \<Longrightarrow> cnt_le x (take n xs) = min n (cnt_le x xs)"
proof (induction xs arbitrary: n)
  case Nil
  then show ?case by (simp add: cnt_le_def)
next
  case (Cons a xs)
  show ?case
  proof (cases n)
    case 0
    then show ?thesis by (simp add: cnt_le_def)
  next
    case (Suc n')
    show ?thesis
    proof (cases "a \<le> x")
      case True
      with Cons Suc show ?thesis by (simp add: cnt_le_def)
    next
      case False
      with Cons.prems have "\<forall>v\<in>set xs. \<not> v \<le> x" by auto
      then have "filter (\<lambda>v. v \<le> x) xs = []" "filter (\<lambda>v. v \<le> x) (take n' xs) = []"
        by (auto simp: filter_empty_conv dest: in_set_takeD)
      with False Suc show ?thesis by (simp add: cnt_le_def)
    qed
  qed
qed

lemma cnt_le_drop:
  assumes "sorted xs"
  shows "cnt_le x (drop n xs) = cnt_le x xs - n"
proof -
  have "cnt_le x xs = cnt_le x (take n xs) + cnt_le x (drop n xs)"
    by (metis append_take_drop_id cnt_le_append)
  with cnt_le_take [OF assms, of x n] show ?thesis by simp
qed

lemma cnt_le_merge_and_select:
  assumes "sorted a" "length a = L" "sorted b" "length b = L"
  shows "cnt_le x (merge_and_select_val a b L kl) =
           (if kl then min L (cnt_le x a + cnt_le x b) else cnt_le x a + cnt_le x b - L)"
  using assms by (simp add: merge_and_select_eq cnt_le_take cnt_le_drop)

lemma cnt_le_all:
  assumes "cnt_le x xs = length xs" "v \<in> set xs"
  shows "v \<le> x"
proof (rule ccontr)
  assume "\<not> v \<le> x"
  with assms(2) have "length (filter (\<lambda>v. v \<le> x) xs) < length xs"
    by (rule length_filter_less)
  with assms(1) show False by (simp add: cnt_le_def)
qed

lemma cnt_le_pos: "v \<in> set xs \<Longrightarrow> v \<le> x \<Longrightarrow> 0 < cnt_le x xs"
  by (auto simp: cnt_le_def filter_empty_conv)

lemma sorted_concat:
  assumes "\<And>p. p \<in> set ps \<Longrightarrow> sorted p"
    and "\<And>i j a b. i < j \<Longrightarrow> j < length ps \<Longrightarrow> a \<in> set (ps ! i) \<Longrightarrow> b \<in> set (ps ! j) \<Longrightarrow> a \<le> b"
  shows "sorted (concat (ps :: int list list))"
  using assms
proof (induction ps)
  case Nil
  then show ?case by simp
next
  case (Cons p ps)
  have "sorted (concat ps)"
  proof (rule Cons.IH)
    show "sorted q" if "q \<in> set ps" for q using Cons.prems(1) that by simp
    show "a \<le> b" if "i < j" "j < length ps" "a \<in> set (ps ! i)" "b \<in> set (ps ! j)" for i j a b
      using Cons.prems(2) [of "Suc i" "Suc j" a b] that by simp
  qed
  moreover have "a \<le> b" if "a \<in> set p" "b \<in> set (concat ps)" for a b
  proof -
    from that(2) obtain q where "q \<in> set ps" "b \<in> set q" by auto
    then obtain j where "j < length ps" "b \<in> set (ps ! j)"
      by (metis in_set_conv_nth)
    with Cons.prems(2) [of 0 "Suc j" a b] that(1) show ?thesis by simp
  qed
  ultimately show ?case using Cons.prems(1) by (simp add: sorted_append)
qed

subsection \<open>One round of the network on the partitions\<close>

lemma parts_ok_nth: "parts_ok P L parts \<Longrightarrow> r < P \<Longrightarrow> sorted (parts ! r) \<and> length (parts ! r) = L"
  by (simp add: parts_ok_def)

lemma exchange_round_ok:
  assumes "parts_ok (2 ^ m) L parts" "t < m"
  shows "parts_ok (2 ^ m) L (exchange_round (2 ^ m) L k (2 ^ t) parts)"
  unfolding parts_ok_def
proof (intro conjI ballI)
  show "length (exchange_round (2 ^ m) L k (2 ^ t) parts) = 2 ^ m" by simp
next
  fix p assume "p \<in> set (exchange_round (2 ^ m) L k (2 ^ t) parts)"
  then obtain r where r: "r < 2 ^ m" "p = exchange_round (2 ^ m) L k (2 ^ t) parts ! r"
    by (auto simp: in_set_conv_nth)
  have pr: "r XOR 2 ^ t < 2 ^ m" using r(1) assms(2) by (rule xor_pow2_less)
  note a = parts_ok_nth [OF assms(1) r(1)] and b = parts_ok_nth [OF assms(1) pr]
  have "p = (if select_keep_low r k (2 ^ t) then take L (sort (parts ! r @ parts ! (r XOR 2 ^ t)))
            else drop L (sort (parts ! r @ parts ! (r XOR 2 ^ t))))"
    using r a b by (simp add: exchange_round_nth merge_and_select_eq)
  then show "sorted p" "length p = L"
    using a b by (simp_all add: sorted_wrt_take sorted_wrt_drop)
qed

lemma exchange_round_cnt:
  assumes "parts_ok (2 ^ m) L parts" "t < m" "r < 2 ^ m"
  shows "cnt_le x (exchange_round (2 ^ m) L (2 ^ s) (2 ^ t) parts ! r)
           = round_cnt L s t (\<lambda>r. cnt_le x (parts ! r)) r"
proof -
  have pr: "r XOR 2 ^ t < 2 ^ m" using assms(3,2) by (rule xor_pow2_less)
  note a = parts_ok_nth [OF assms(1,3)] and b = parts_ok_nth [OF assms(1) pr]
  show ?thesis
    using a b assms(3)
    by (simp add: exchange_round_nth cnt_le_merge_and_select round_cnt_def select_keep_low_bits)
qed

lemma mset_double_cancel:
  fixes A B :: "'a multiset"
  assumes "A + A = B + B"
  shows "A = B"
proof (rule multiset_eqI)
  fix x
  from assms have "count (A + A) x = count (B + B) x" by simp
  then show "count A x = count B x" by simp
qed

lemma mset_concat_sum: "mset (concat xs) = (\<Sum>r<length xs. mset (xs ! r))"
proof -
  have "mset (concat xs) = sum_list (map mset xs)" by (rule mset_concat)
  also have "\<dots> = (\<Sum>r = 0..<length xs. map mset xs ! r)"
    by (simp add: sum_list_sum_nth)
  also have "\<dots> = (\<Sum>r<length xs. mset (xs ! r))"
    unfolding atLeast0LessThan by (rule sum.cong) simp_all
  finally show ?thesis .
qed

lemma exchange_round_mset:
  assumes "parts_ok (2 ^ m) L parts" "t < s" "s \<le> m"
  shows "mset (concat (exchange_round (2 ^ m) L (2 ^ s) (2 ^ t) parts)) = mset (concat parts)"
proof -
  let ?P = "(2::nat) ^ m"
  let ?new = "exchange_round ?P L (2 ^ s) (2 ^ t) parts"
  let ?pi = "\<lambda>r::nat. r XOR 2 ^ t"
  have tm: "t < m" using assms(2,3) by simp
  have len: "length parts = ?P" using assms(1) by (simp add: parts_ok_def)
  have bij: "bij_betw ?pi {..<?P} {..<?P}"
    by (rule bij_betw_byWitness [where f' = ?pi]) (auto simp: xor_pow2_cancel xor_pow2_less tm)
  have sum_new: "mset (concat ?new) = (\<Sum>r<?P. mset (?new ! r))"
    using mset_concat_sum [of ?new] by simp
  have sum_old: "mset (concat parts) = (\<Sum>r<?P. mset (parts ! r))"
    using mset_concat_sum [of parts] len by simp
  have pair: "mset (?new ! r) + mset (?new ! ?pi r) = mset (parts ! r) + mset (parts ! ?pi r)"
    if "r < ?P" for r
  proof -
    have pr: "?pi r < ?P" using that tm by (rule xor_pow2_less)
    note a = parts_ok_nth [OF assms(1) that] and b = parts_ok_nth [OF assms(1) pr]
    have compl: "select_keep_low (?pi r) (2 ^ s) (2 ^ t) = (\<not> select_keep_low r (2 ^ s) (2 ^ t))"
      using assms(2) select_keep_low_partner [of t s r] by simp
    let ?S = "sort (parts ! r @ parts ! ?pi r)"
    have r1: "?new ! r = (if select_keep_low r (2 ^ s) (2 ^ t) then take L ?S else drop L ?S)"
      using that a b by (simp add: exchange_round_nth merge_and_select_eq)
    have r2: "?new ! ?pi r = (if select_keep_low r (2 ^ s) (2 ^ t) then drop L ?S else take L ?S)"
      using pr a b compl
      by (simp add: exchange_round_nth merge_and_select_eq xor_pow2_cancel
          sort_append_commute [of "parts ! ?pi r" "parts ! r"])
    have "mset (take L ?S) + mset (drop L ?S) = mset (parts ! r) + mset (parts ! ?pi r)"
      by (metis append_take_drop_id mset_append mset_sort)
    then show ?thesis unfolding r1 r2 by (simp add: add.commute)
  qed
  have re: "(\<Sum>r<?P. g (?pi r)) = (\<Sum>r<?P. g r)" for g :: "nat \<Rightarrow> int multiset"
    by (rule sum.reindex_bij_betw [OF bij])
  have "(\<Sum>r<?P. mset (?new ! r)) + (\<Sum>r<?P. mset (?new ! r))
      = (\<Sum>r<?P. mset (?new ! r) + mset (?new ! ?pi r))"
    by (simp add: sum.distrib re [of "\<lambda>r. mset (?new ! r)"])
  also have "\<dots> = (\<Sum>r<?P. mset (parts ! r) + mset (parts ! ?pi r))"
    by (rule sum.cong) (simp_all add: pair)
  also have "\<dots> = (\<Sum>r<?P. mset (parts ! r)) + (\<Sum>r<?P. mset (parts ! r))"
    by (simp add: sum.distrib re [of "\<lambda>r. mset (parts ! r)"])
  finally show ?thesis
    unfolding sum_new sum_old by (rule mset_double_cancel)
qed

subsection \<open>The run of the network\<close>

lemma net_ok_round:
  assumes ok: "net_ok L m s (Suc t) parts0 st" and ts: "t < s" and sm: "s \<le> m"
  shows "net_ok L m s t parts0 (do_round_val (2 ^ m) L (2 ^ s) (2 ^ t) st)"
proof -
  let ?new = "exchange_round (2 ^ m) L (2 ^ s) (2 ^ t) (fst st)"
  have tm: "t < m" using ts sm by simp
  from ok have p: "parts_ok (2 ^ m) L (fst st)"
    and ms: "mset (concat (fst st)) = mset (concat parts0)"
    and hist: "\<forall>e\<in>set (snd st). parts_ok (2 ^ m) L (snd (snd e))"
    and inv: "\<And>x. net_inv L m s (Suc t) (\<lambda>r. cnt_le x (fst st ! r))"
    unfolding net_ok_def by blast+
  have st': "do_round_val (2 ^ m) L (2 ^ s) (2 ^ t) st = (?new, snd st @ [(2 ^ s, 2 ^ t, ?new)])"
    by (simp add: do_round_val_def Let_def)
  have p': "parts_ok (2 ^ m) L ?new" using p tm by (rule exchange_round_ok)
  have ms': "mset (concat ?new) = mset (concat parts0)"
    using exchange_round_mset [OF p ts sm] ms by simp
  have inv': "net_inv L m s t (\<lambda>r. cnt_le x (?new ! r))" for x
  proof -
    have "net_inv L m s t (round_cnt L s t (\<lambda>r. cnt_le x (fst st ! r)))"
      using inv ts sm by (rule net_inv_round)
    moreover have "net_inv L m s t (\<lambda>r. cnt_le x (?new ! r))
        \<longleftrightarrow> net_inv L m s t (round_cnt L s t (\<lambda>r. cnt_le x (fst st ! r)))"
      by (rule net_inv_cong) (use tm in \<open>simp_all add: exchange_round_cnt [OF p tm]\<close>)
    ultimately show ?thesis by simp
  qed
  show ?thesis
    unfolding net_ok_def st' using p' ms' hist inv' by simp
qed

lemma net_ok_phase_rounds:
  assumes "net_ok L m s t parts0 st" "t \<le> s" "s \<le> m"
  shows "net_ok L m s 0 parts0 (run_rounds (2 ^ m) L (phase_rounds s t) st)"
  using assms
proof (induction t arbitrary: st)
  case 0
  then show ?case by (simp add: phase_rounds_def)
next
  case (Suc t)
  have "net_ok L m s t parts0 (do_round_val (2 ^ m) L (2 ^ s) (2 ^ t) st)"
    using Suc.prems by (intro net_ok_round) simp_all
  then have "net_ok L m s 0 parts0
      (run_rounds (2 ^ m) L (phase_rounds s t) (do_round_val (2 ^ m) L (2 ^ s) (2 ^ t) st))"
    using Suc.prems by (intro Suc.IH) simp_all
  then show ?case by (simp add: phase_rounds_Suc)
qed

lemma net_ok_next_phase:
  assumes "net_ok L m s 0 parts0 st" "s < m"
  shows "net_ok L m (Suc s) (Suc s) parts0 st"
  using assms unfolding net_ok_def by (simp add: net_inv_phase)

lemma net_ok_schedule:
  assumes "net_ok L m s 0 parts0 st" "s \<le> m"
  shows "net_ok L m m 0 parts0 (run_rounds (2 ^ m) L (schedule_from (Suc s) m) st)"
  using assms
proof (induction "m - s" arbitrary: s st)
  case 0
  then have "s = m" by simp
  with 0 show ?case by (simp add: schedule_from_done)
next
  case (Suc d)
  then have sm: "s < m" by simp
  have "net_ok L m (Suc s) (Suc s) parts0 st"
    using Suc.prems(1) sm by (rule net_ok_next_phase)
  then have "net_ok L m (Suc s) 0 parts0 (run_rounds (2 ^ m) L (phase_rounds (Suc s) (Suc s)) st)"
    using sm by (intro net_ok_phase_rounds) simp_all
  then have "net_ok L m m 0 parts0
      (run_rounds (2 ^ m) L (schedule_from (Suc (Suc s)) m)
        (run_rounds (2 ^ m) L (phase_rounds (Suc s) (Suc s)) st))"
    using Suc.hyps(2) sm by (intro Suc.hyps(1)) simp_all
  moreover have "schedule_from (Suc s) m
      = phase_rounds (Suc s) (Suc s) @ schedule_from (Suc (Suc s)) m"
    using sm by (intro schedule_from_step) simp
  ultimately show ?case by simp
qed

lemma net_ok_init:
  assumes "parts_ok (2 ^ m) L parts"
  shows "net_ok L m 0 0 parts (parts, [])"
proof -
  have "cnt_le x (parts ! r) \<le> L" if "r < 2 ^ m" for x r
    using parts_ok_nth [OF assms that] cnt_le_le_length [of x "parts ! r"] by simp
  then have "net_inv L m 0 0 (\<lambda>r. cnt_le x (parts ! r))" for x
    by (intro net_inv_init)
  with assms show ?thesis by (simp add: net_ok_def)
qed

lemma net_ok_sorted:
  assumes "net_ok L m m 0 parts0 st"
  shows "sorted (concat (fst st))"
proof (rule sorted_concat)
  from assms have p: "parts_ok (2 ^ m) L (fst st)"
    and inv: "\<And>x. net_inv L m m 0 (\<lambda>r. cnt_le x (fst st ! r))"
    unfolding net_ok_def by blast+
  show "sorted q" if "q \<in> set (fst st)" for q using p that by (simp add: parts_ok_def)
  show "a \<le> b"
    if "i < j" "j < length (fst st)" "a \<in> set (fst st ! i)" "b \<in> set (fst st ! j)" for i j a b
  proof -
    have j: "j < 2 ^ m" using that(2) p by (simp add: parts_ok_def)
    then have i: "i < 2 ^ m" using that(1) by simp
    have "0 < cnt_le b (fst st ! j)" using that(4) by (rule cnt_le_pos) simp
    with inv [of b] that(1) j have "cnt_le b (fst st ! i) = L" by (rule net_inv_final)
    then have "cnt_le b (fst st ! i) = length (fst st ! i)"
      using parts_ok_nth [OF p i] by simp
    then show ?thesis using that(3) by (rule cnt_le_all)
  qed
qed

subsection \<open>The local sorter sorts segments whose length is a power of two\<close>

lemma cas_loop_nth:
  assumes "low \<le> i" "low + 2 * k \<le> length arr" "m < length arr"
  shows "cas_loop_val arr low k dir i ! m =
     (if i \<le> m \<and> m < low + k then
        (if dir then min (arr ! m) (arr ! (m + k)) else max (arr ! m) (arr ! (m + k)))
      else if i + k \<le> m \<and> m < low + 2 * k then
        (if dir then max (arr ! (m - k)) (arr ! m) else min (arr ! (m - k)) (arr ! m))
      else arr ! m)"
  using assms
proof (induction arr low k dir i rule: cas_loop_val.induct)
  case (1 arr low k dir i)
  show ?case
  proof (cases "i < low + k")
    case False
    then have "cas_loop_val arr low k dir i = arr" by (subst cas_loop_val.simps) simp
    with False show ?thesis by auto
  next
    case True
    define arr1 where "arr1 =
      (if dir then (if arr ! i > arr ! (i + k) then swap_int arr i (i + k) else arr)
       else (if arr ! i < arr ! (i + k) then swap_int arr i (i + k) else arr))"
    have step: "cas_loop_val arr low k dir i = cas_loop_val arr1 low k dir (i + 1)"
      using True by (subst cas_loop_val.simps) (simp add: arr1_def)
    have kpos: "0 < k" using True 1(2) by simp
    have ik: "i + k < length arr" using True 1(3) by simp
    have len1: "length arr1 = length arr" by (simp add: arr1_def swap_int_def Let_def)
    have a_i: "arr1 ! i = (if dir then min (arr ! i) (arr ! (i + k)) else max (arr ! i) (arr ! (i + k)))"
      using ik kpos by (auto simp: arr1_def swap_int_def Let_def)
    have a_ik: "arr1 ! (i + k) = (if dir then max (arr ! i) (arr ! (i + k)) else min (arr ! i) (arr ! (i + k)))"
      using ik kpos by (auto simp: arr1_def swap_int_def Let_def)
    have a_o: "arr1 ! n = arr ! n" if "n \<noteq> i" "n \<noteq> i + k" for n
      using that by (auto simp: arr1_def swap_int_def Let_def)
    have IH: "cas_loop_val arr1 low k dir (i + 1) ! m =
     (if i + 1 \<le> m \<and> m < low + k then
        (if dir then min (arr1 ! m) (arr1 ! (m + k)) else max (arr1 ! m) (arr1 ! (m + k)))
      else if i + 1 + k \<le> m \<and> m < low + 2 * k then
        (if dir then max (arr1 ! (m - k)) (arr1 ! m) else min (arr1 ! (m - k)) (arr1 ! m))
      else arr1 ! m)"
      using "1.IH" [OF True] 1(2,3,4) len1 unfolding arr1_def by simp
    consider (a) "m = i" | (b) "m = i + k" | (c) "i + 1 \<le> m" "m < low + k"
      | (d) "i + 1 + k \<le> m" "m < low + 2 * k" | (e) "m < i" | (f) "low + k \<le> m" "m < i + k"
      | (g) "low + 2 * k \<le> m"
      by linarith
    then show ?thesis
    proof cases
      case a
      with True kpos show ?thesis unfolding step IH by (simp add: a_i)
    next
      case b
      with True kpos 1(2) show ?thesis unfolding step IH by (simp add: a_ik)
    next
      case c
      then have "arr1 ! m = arr ! m" "arr1 ! (m + k) = arr ! (m + k)"
        using True 1(2) by (simp_all add: a_o)
      with c 1(2) show ?thesis unfolding step IH by simp
    next
      case d
      then have "arr1 ! m = arr ! m" "arr1 ! (m - k) = arr ! (m - k)"
        using True 1(2) by (simp_all add: a_o)
      with d 1(2) show ?thesis unfolding step IH by simp
    next
      case e
      then have "arr1 ! m = arr ! m" using kpos by (simp add: a_o)
      with e 1(2) show ?thesis unfolding step IH by simp
    next
      case f
      then have "arr1 ! m = arr ! m" using True by (simp add: a_o)
      with f True show ?thesis unfolding step IH by simp
    next
      case g
      then have "arr1 ! m = arr ! m" using True by (simp add: a_o)
      with g True show ?thesis unfolding step IH by simp
    qed
  qed
qed

lemma compare_and_swap_nth:
  assumes "low + 2 * k \<le> length arr" "i < k"
  shows "bitonic_compare_and_swap_val arr low k dir ! (low + i) =
           (if dir then min (arr ! (low + i)) (arr ! (low + (k + i)))
            else max (arr ! (low + i)) (arr ! (low + (k + i))))"
    and "bitonic_compare_and_swap_val arr low k dir ! (low + (k + i)) =
           (if dir then max (arr ! (low + i)) (arr ! (low + (k + i)))
            else min (arr ! (low + i)) (arr ! (low + (k + i))))"
proof -
  have "low + i < length arr" "low + (k + i) < length arr" using assms by simp_all
  then show "bitonic_compare_and_swap_val arr low k dir ! (low + i) =
           (if dir then min (arr ! (low + i)) (arr ! (low + (k + i)))
            else max (arr ! (low + i)) (arr ! (low + (k + i))))"
    and "bitonic_compare_and_swap_val arr low k dir ! (low + (k + i)) =
           (if dir then max (arr ! (low + i)) (arr ! (low + (k + i)))
            else min (arr ! (low + i)) (arr ! (low + (k + i))))"
    using assms by (simp_all add: bitonic_compare_and_swap_val_def cas_loop_nth ac_simps)
qed

lemma blk_asc_cong:
  assumes "\<And>i. i < n \<Longrightarrow> f i = g i"
  shows "blk_asc L f n \<longleftrightarrow> blk_asc L g n"
  unfolding blk_asc_def using assms by (metis less_trans)

lemma blk_desc_cong:
  assumes "\<And>i. i < n \<Longrightarrow> f i = g i"
  shows "blk_desc L f n \<longleftrightarrow> blk_desc L g n"
  unfolding blk_desc_def using assms by (metis less_trans)

lemma blk_asc_join:
  assumes a1: "blk_asc L f h" and a2: "blk_asc L (\<lambda>i. f (h + i)) h"
    and d: "(\<forall>i<h. f (h + i) = 0) \<or> (\<forall>i<h. f i = L)"
  shows "blk_asc L f (2 * h)"
  unfolding blk_asc_def
proof (intro allI impI)
  fix i i' :: nat assume lt: "i < i' \<and> i' < 2 * h" and pos: "0 < f i'"
  show "f i = L"
  proof (cases "i' < h")
    case True
    with a1 lt pos show ?thesis unfolding blk_asc_def by blast
  next
    case False
    define j' where "j' = i' - h"
    have j': "i' = h + j'" "j' < h" using False lt unfolding j'_def by linarith+
    show ?thesis
    proof (cases "i < h")
      case True
      from pos j' have "\<not> (\<forall>i<h. f (h + i) = 0)" by auto
      with d True show ?thesis by blast
    next
      case False
      define j where "j = i - h"
      have j: "i = h + j" "j < j'" using False lt j' unfolding j_def by linarith+
      with a2 j' pos show ?thesis unfolding blk_asc_def by blast
    qed
  qed
qed

lemma blk_desc_join:
  assumes a1: "blk_desc L f h" and a2: "blk_desc L (\<lambda>i. f (h + i)) h"
    and d: "(\<forall>i<h. f i = 0) \<or> (\<forall>i<h. f (h + i) = L)"
  shows "blk_desc L f (2 * h)"
  unfolding blk_desc_def
proof (intro allI impI)
  fix i i' :: nat assume lt: "i < i' \<and> i' < 2 * h" and pos: "0 < f i"
  show "f i' = L"
  proof (cases "i' < h")
    case True
    with a1 lt pos show ?thesis unfolding blk_desc_def by blast
  next
    case False
    define j' where "j' = i' - h"
    have j': "i' = h + j'" "j' < h" using False lt unfolding j'_def by linarith+
    show ?thesis
    proof (cases "i < h")
      case True
      from pos True have "\<not> (\<forall>i<h. f i = 0)" by auto
      with d j' show ?thesis by blast
    next
      case False
      define j where "j = i - h"
      have j: "i = h + j" "j < j'" using False lt j' unfolding j_def by linarith+
      with a2 j' pos show ?thesis unfolding blk_desc_def by blast
    qed
  qed
qed

lemma segment_set:
  assumes "low + n \<le> length arr"
  shows "set (take n (drop low arr)) = {arr ! (low + i) | i. i < n}"
proof -
  have "length (take n (drop low arr)) = n" using assms by simp
  then have "set (take n (drop low arr)) = {take n (drop low arr) ! i | i. i < n}"
    by (metis set_conv_nth)
  also have "\<dots> = {arr ! (low + i) | i. i < n}"
  proof -
    have "take n (drop low arr) ! i = arr ! (low + i)" if "i < n" for i
      using that assms by simp
    then show ?thesis by metis
  qed
  finally show ?thesis .
qed

lemma same_outside_all:
  assumes "same_outside arr arr' low n" "low + n \<le> length arr"
  shows "(\<forall>i<n. Q (arr' ! (low + i))) \<longleftrightarrow> (\<forall>i<n. Q (arr ! (low + i)))"
proof -
  have len: "length arr' = length arr" using assms(1) by (simp add: same_outside_def)
  have "set (take n (drop low arr')) = set (take n (drop low arr))"
    using same_outside_segment [OF assms(1)] by (rule mset_eq_setD)
  then have "{arr' ! (low + i) | i. i < n} = {arr ! (low + i) | i. i < n}"
    using assms(2) len by (simp add: segment_set)
  then show ?thesis by (auto simp: set_eq_iff) (metis)+
qed

lemma same_outside_nth:
  assumes "same_outside arr arr' low n" "m < length arr" "m < low \<or> low + n \<le> m"
  shows "arr' ! m = arr ! m"
  using assms unfolding same_outside_def by blast

lemma ind_le_shift: "ind_le x arr (low + h) i = ind_le x arr low (h + i)"
  by (simp add: ind_le_def add.assoc)

lemma ind_le_compare_and_swap:
  assumes "low + 2 * h \<le> length arr" "i < h"
  shows "ind_le x (bitonic_compare_and_swap_val arr low h dir) low i =
           (if dir then min 1 (ind_le x arr low i + ind_le x arr low (h + i))
            else ind_le x arr low i + ind_le x arr low (h + i) - 1)"
    and "ind_le x (bitonic_compare_and_swap_val arr low h dir) low (h + i) =
           (if dir then ind_le x arr low i + ind_le x arr low (h + i) - 1
            else min 1 (ind_le x arr low i + ind_le x arr low (h + i)))"
  using compare_and_swap_nth [OF assms, of dir]
  by (auto simp: ind_le_def)

lemma merge_recursive_unfold:
  assumes "1 < cnt"
  shows "bitonic_merge_recursive_val arr low cnt dir =
           bitonic_merge_recursive_val
             (bitonic_merge_recursive_val (bitonic_compare_and_swap_val arr low (cnt div 2) dir)
                low (cnt div 2) dir)
             (low + cnt div 2) (cnt div 2) dir"
  using assms by (subst bitonic_merge_recursive_val.simps) (simp add: Let_def)

lemma sort_recursive_unfold:
  assumes "1 < cnt"
  shows "bitonic_sort_recursive_val arr low cnt dir =
           bitonic_merge_recursive_val
             (bitonic_sort_recursive_val (bitonic_sort_recursive_val arr low (cnt div 2) True)
                (low + cnt div 2) (cnt div 2) False)
             low cnt dir"
  using assms by (subst bitonic_sort_recursive_val.simps) (simp add: Let_def)

lemma merge_threshold:
  assumes "low + 2 ^ e \<le> length arr" and "bshape 1 (ind_le x arr low) (2 ^ e)"
  shows "if dir then blk_asc 1 (ind_le x (bitonic_merge_recursive_val arr low (2 ^ e) dir) low) (2 ^ e)
         else blk_desc 1 (ind_le x (bitonic_merge_recursive_val arr low (2 ^ e) dir) low) (2 ^ e)"
  using assms
proof (induction e arbitrary: arr low)
  case 0
  show ?case by (simp add: blk_asc_def blk_desc_def)
next
  case (Suc e)
  define h :: nat where "h = 2 ^ e"
  define arr1 where "arr1 = bitonic_compare_and_swap_val arr low h dir"
  define arr2 where "arr2 = bitonic_merge_recursive_val arr1 low h dir"
  define arr3 where "arr3 = bitonic_merge_recursive_val arr2 (low + h) h dir"
  define f where "f = ind_le x arr low"
  have hpos: "0 < h" by (simp add: h_def)
  have cnt3: "1 < 2 * h" using hpos by linarith
  have cnt: "(2::nat) ^ Suc e = 2 * h" "(2 * h) div 2 = h" "1 < 2 * h"
    using cnt3 by (simp_all add: h_def)
  have res: "bitonic_merge_recursive_val arr low (2 * h) dir = arr3"
    unfolding merge_recursive_unfold [OF cnt(3)] cnt(2)
    by (simp add: arr3_def arr2_def arr1_def)
  have len: "low + 2 * h \<le> length arr" using Suc.prems(1) cnt(1) by simp
  have so1: "same_outside arr arr1 low (2 * h)"
    unfolding arr1_def using len by (rule same_outside_compare_and_swap)
  then have len1: "length arr1 = length arr" by (simp add: same_outside_def)
  have so2: "same_outside arr1 arr2 low h"
    unfolding arr2_def using len len1 by (intro same_outside_merge) simp
  then have len2: "length arr2 = length arr" using len1 by (simp add: same_outside_def)
  have so3: "same_outside arr2 arr3 (low + h) h"
    unfolding arr3_def using len len2 by (intro same_outside_merge) simp
  have bnd: "f i \<le> 1" for i by (simp add: f_def ind_le_def)
  have "bshape 1 f (2 * h)" using Suc.prems(2) cnt(1) by (simp add: f_def)
  from half_clean [OF this bnd]
  have hc_lo: "bshape 1 (\<lambda>i. min 1 (f i + f (h + i))) h"
    and hc_hi: "bshape 1 (\<lambda>i. f i + f (h + i) - 1) h"
    and hc_dom: "(\<forall>i<h. f i + f (h + i) - 1 = 0) \<or> (\<forall>i<h. min 1 (f i + f (h + i)) = 1)"
    by simp_all
  have c1: "ind_le x arr1 low i = (if dir then min 1 (f i + f (h + i)) else f i + f (h + i) - 1)"
    and c2: "ind_le x arr1 low (h + i) = (if dir then f i + f (h + i) - 1 else min 1 (f i + f (h + i)))"
    if "i < h" for i
    using ind_le_compare_and_swap [OF len that, of x dir] by (simp_all add: arr1_def f_def)
  have first1: "bshape 1 (ind_le x arr1 low) h"
  proof -
    have "bshape 1 (ind_le x arr1 low) h \<longleftrightarrow>
        bshape 1 (\<lambda>i. if dir then min 1 (f i + f (h + i)) else f i + f (h + i) - 1) h"
      by (rule bshape_cong) (rule c1)
    then show ?thesis using hc_lo hc_hi by (cases dir) simp_all
  qed
  have second1: "bshape 1 (\<lambda>i. ind_le x arr1 low (h + i)) h"
  proof -
    have "bshape 1 (\<lambda>i. ind_le x arr1 low (h + i)) h \<longleftrightarrow>
        bshape 1 (\<lambda>i. if dir then f i + f (h + i) - 1 else min 1 (f i + f (h + i))) h"
      by (rule bshape_cong) (rule c2)
    then show ?thesis using hc_lo hc_hi by (cases dir) simp_all
  qed
  \<comment> \<open>the first recursive call sorts the first half and leaves the second alone\<close>
  have s2: "if dir then blk_asc 1 (ind_le x arr2 low) h else blk_desc 1 (ind_le x arr2 low) h"
  proof -
    have "low + 2 ^ e \<le> length arr1" using len len1 by (simp add: h_def)
    moreover have "bshape 1 (ind_le x arr1 low) (2 ^ e)" using first1 by (simp add: h_def)
    ultimately show ?thesis unfolding arr2_def h_def by (rule Suc.IH)
  qed
  have keep2: "ind_le x arr2 low (h + i) = ind_le x arr1 low (h + i)" if "i < h" for i
    using same_outside_nth [OF so2, of "low + (h + i)"] that len len1 by (simp add: ind_le_def)
  have second2: "bshape 1 (ind_le x arr2 (low + h)) h"
  proof -
    have "bshape 1 (ind_le x arr2 (low + h)) h \<longleftrightarrow> bshape 1 (\<lambda>i. ind_le x arr1 low (h + i)) h"
      by (rule bshape_cong) (simp add: ind_le_shift keep2)
    with second1 show ?thesis by simp
  qed
  \<comment> \<open>the second recursive call sorts the second half and leaves the first alone\<close>
  have s3: "if dir then blk_asc 1 (ind_le x arr3 (low + h)) h
            else blk_desc 1 (ind_le x arr3 (low + h)) h"
  proof -
    have "low + 2 ^ e + 2 ^ e \<le> length arr2" using len len2 by (simp add: h_def)
    moreover have "bshape 1 (ind_le x arr2 (low + 2 ^ e)) (2 ^ e)" using second2 by (simp add: h_def)
    ultimately show ?thesis unfolding arr3_def h_def by (rule Suc.IH)
  qed
  have keep3: "ind_le x arr3 low i = ind_le x arr2 low i" if "i < h" for i
    using same_outside_nth [OF so3, of "low + i"] that len len2 by (simp add: ind_le_def)
  have f3: "if dir then blk_asc 1 (ind_le x arr3 low) h else blk_desc 1 (ind_le x arr3 low) h"
  proof -
    have "blk_asc 1 (ind_le x arr3 low) h \<longleftrightarrow> blk_asc 1 (ind_le x arr2 low) h"
      by (rule blk_asc_cong) (rule keep3)
    moreover have "blk_desc 1 (ind_le x arr3 low) h \<longleftrightarrow> blk_desc 1 (ind_le x arr2 low) h"
      by (rule blk_desc_cong) (rule keep3)
    ultimately show ?thesis using s2 by (cases dir) simp_all
  qed
  \<comment> \<open>both calls permute their half, so a half that was all \<open>0\<close> or all \<open>1\<close> stays so\<close>
  have all_first: "(\<forall>i<h. ind_le x arr3 low i = v) \<longleftrightarrow> (\<forall>i<h. ind_le x arr1 low i = v)" for v
  proof -
    have "(\<forall>i<h. ind_le x arr3 low i = v) \<longleftrightarrow> (\<forall>i<h. ind_le x arr2 low i = v)"
      using keep3 by simp
    also have "\<dots> \<longleftrightarrow> (\<forall>i<h. ind_le x arr1 low i = v)"
      unfolding ind_le_def
      using same_outside_all [OF so2, of "\<lambda>a. (if a \<le> x then 1 else 0) = v"] len len1 by simp
    finally show ?thesis .
  qed
  have all_second: "(\<forall>i<h. ind_le x arr3 low (h + i) = v) \<longleftrightarrow> (\<forall>i<h. ind_le x arr1 low (h + i) = v)" for v
  proof -
    have "(\<forall>i<h. ind_le x arr3 low (h + i) = v) \<longleftrightarrow> (\<forall>i<h. ind_le x arr2 low (h + i) = v)"
      unfolding ind_le_def
      using same_outside_all [OF so3, of "\<lambda>a. (if a \<le> x then 1 else 0) = v"] len len2
      by (simp add: add.assoc)
    also have "\<dots> \<longleftrightarrow> (\<forall>i<h. ind_le x arr1 low (h + i) = v)"
      using keep2 by simp
    finally show ?thesis .
  qed
  have shift3: "(\<lambda>i. ind_le x arr3 low (h + i)) = ind_le x arr3 (low + h)"
    by (rule ext) (simp add: ind_le_shift)
  show ?case
  proof (cases dir)
    case True
    have "(\<forall>i<h. ind_le x arr3 low (h + i) = 0) \<or> (\<forall>i<h. ind_le x arr3 low i = 1)"
      unfolding all_first all_second using hc_dom True c1 c2 by simp
    moreover have "blk_asc 1 (ind_le x arr3 low) h" using f3 True by simp
    moreover have "blk_asc 1 (\<lambda>i. ind_le x arr3 low (h + i)) h"
      unfolding shift3 using s3 True by simp
    ultimately have "blk_asc 1 (ind_le x arr3 low) (2 * h)" by (intro blk_asc_join)
    then show ?thesis unfolding cnt(1) res using True by simp
  next
    case False
    have "(\<forall>i<h. ind_le x arr3 low i = 0) \<or> (\<forall>i<h. ind_le x arr3 low (h + i) = 1)"
      unfolding all_first all_second using hc_dom False c1 c2 by simp
    moreover have "blk_desc 1 (ind_le x arr3 low) h" using f3 False by simp
    moreover have "blk_desc 1 (\<lambda>i. ind_le x arr3 low (h + i)) h"
      unfolding shift3 using s3 False by simp
    ultimately have "blk_desc 1 (ind_le x arr3 low) (2 * h)" by (intro blk_desc_join)
    then show ?thesis unfolding cnt(1) res using False by simp
  qed
qed

lemma sort_threshold:
  assumes "low + 2 ^ e \<le> length arr"
  shows "if dir then blk_asc 1 (ind_le x (bitonic_sort_recursive_val arr low (2 ^ e) dir) low) (2 ^ e)
         else blk_desc 1 (ind_le x (bitonic_sort_recursive_val arr low (2 ^ e) dir) low) (2 ^ e)"
  using assms
proof (induction e arbitrary: arr low dir)
  case 0
  show ?case by (simp add: blk_asc_def blk_desc_def)
next
  case (Suc e)
  define h :: nat where "h = 2 ^ e"
  define arr1 where "arr1 = bitonic_sort_recursive_val arr low h True"
  define arr2 where "arr2 = bitonic_sort_recursive_val arr1 (low + h) h False"
  have hpos: "0 < h" by (simp add: h_def)
  have cnt3: "1 < 2 * h" using hpos by linarith
  have cnt: "(2::nat) ^ Suc e = 2 * h" "(2 * h) div 2 = h"
    by (simp_all add: h_def)
  have res: "bitonic_sort_recursive_val arr low (2 * h) dir = bitonic_merge_recursive_val arr2 low (2 * h) dir"
    unfolding sort_recursive_unfold [OF cnt3] cnt(2) by (simp add: arr2_def arr1_def)
  have len: "low + 2 * h \<le> length arr" using Suc.prems cnt(1) by simp
  have so1: "same_outside arr arr1 low h"
    unfolding arr1_def using len by (intro same_outside_sort) simp
  then have len1: "length arr1 = length arr" by (simp add: same_outside_def)
  have so2: "same_outside arr1 arr2 (low + h) h"
    unfolding arr2_def using len len1 by (intro same_outside_sort) simp
  then have len2: "length arr2 = length arr" using len1 by (simp add: same_outside_def)
  have a1: "blk_asc 1 (ind_le x arr1 low) h"
  proof -
    have "low + 2 ^ e \<le> length arr" using len by (simp add: h_def)
    from Suc.IH [OF this, of True] show ?thesis by (simp add: arr1_def h_def)
  qed
  have d2: "blk_desc 1 (ind_le x arr2 (low + h)) h"
  proof -
    have "low + h + 2 ^ e \<le> length arr1" using len len1 by (simp add: h_def)
    from Suc.IH [OF this, of False] show ?thesis by (simp add: arr2_def h_def)
  qed
  have keep: "ind_le x arr2 low i = ind_le x arr1 low i" if "i < h" for i
    using same_outside_nth [OF so2, of "low + i"] that len len1 by (simp add: ind_le_def)
  have "blk_asc 1 (ind_le x arr2 low) h \<longleftrightarrow> blk_asc 1 (ind_le x arr1 low) h"
    by (rule blk_asc_cong) (rule keep)
  with a1 have a2: "blk_asc 1 (ind_le x arr2 low) h" by simp
  have "(\<lambda>i. ind_le x arr2 low (h + i)) = ind_le x arr2 (low + h)"
    by (rule ext) (simp add: ind_le_shift)
  with d2 have "blk_desc 1 (\<lambda>i. ind_le x arr2 low (h + i)) h" by simp
  with a2 have "bshape 1 (ind_le x arr2 low) (2 * h)" by (rule bshape_asc_desc)
  then have "bshape 1 (ind_le x arr2 low) (2 ^ Suc e)" by (simp add: h_def)
  moreover have "low + 2 ^ Suc e \<le> length arr2" using len len2 by (simp add: h_def)
  ultimately have "if dir
      then blk_asc 1 (ind_le x (bitonic_merge_recursive_val arr2 low (2 ^ Suc e) dir) low) (2 ^ Suc e)
      else blk_desc 1 (ind_le x (bitonic_merge_recursive_val arr2 low (2 ^ Suc e) dir) low) (2 ^ Suc e)"
    by (rule merge_threshold [rotated])
  then show ?case unfolding cnt(1) res .
qed

lemma sort_recursive_nth_mono:
  assumes "low + 2 ^ e \<le> length arr" "i < i'" "i' < 2 ^ e"
  shows "bitonic_sort_recursive_val arr low (2 ^ e) True ! (low + i)
           \<le> bitonic_sort_recursive_val arr low (2 ^ e) True ! (low + i')"
proof -
  let ?arr' = "bitonic_sort_recursive_val arr low (2 ^ e) True"
  let ?x = "?arr' ! (low + i')"
  from sort_threshold [OF assms(1), of True ?x]
  have "blk_asc 1 (ind_le ?x ?arr' low) (2 ^ e)" by simp
  moreover have "0 < ind_le ?x ?arr' low i'" by (simp add: ind_le_def)
  ultimately have "ind_le ?x ?arr' low i = 1"
    using assms(2,3) unfolding blk_asc_def by blast
  then show ?thesis by (simp add: ind_le_def split: if_splits)
qed

lemma sort_recursive_sorted:
  assumes "low + 2 ^ e \<le> length arr"
  shows "sorted (take (2 ^ e) (drop low (bitonic_sort_recursive_val arr low (2 ^ e) True)))"
proof -
  let ?arr' = "bitonic_sort_recursive_val arr low (2 ^ e) True"
  have len: "length ?arr' = length arr"
    using same_outside_sort [OF assms, of True] by (simp add: same_outside_def)
  have "take (2 ^ e) (drop low ?arr') ! i \<le> take (2 ^ e) (drop low ?arr') ! i'"
    if "i < i'" "i' < length (take (2 ^ e) (drop low ?arr'))" for i i'
  proof -
    have i': "i' < 2 ^ e" using that(2) by simp
    then show ?thesis
      using sort_recursive_nth_mono [OF assms that(1) i'] that(1) assms len by simp
  qed
  then show ?thesis by (simp only: sorted_iff_nth_mono_less) blast
qed

lemma local_sort_correct:
  assumes "length p = 2 ^ e"
  shows "sorted (bitonic_sort_recursive_val p 0 (2 ^ e) True)"
    and "length (bitonic_sort_recursive_val p 0 (2 ^ e) True) = 2 ^ e"
    and "mset (bitonic_sort_recursive_val p 0 (2 ^ e) True) = mset p"
proof -
  have so: "same_outside p (bitonic_sort_recursive_val p 0 (2 ^ e) True) 0 (2 ^ e)"
    using assms by (intro same_outside_sort) simp
  then show len: "length (bitonic_sort_recursive_val p 0 (2 ^ e) True) = 2 ^ e"
    and "mset (bitonic_sort_recursive_val p 0 (2 ^ e) True) = mset p"
    using assms by (simp_all add: same_outside_def)
  from sort_recursive_sorted [of 0 e p] assms len
  show "sorted (bitonic_sort_recursive_val p 0 (2 ^ e) True)" by simp
qed

subsection \<open>The whole run\<close>

lemma concat_scatter:
  "concat (scatter g P L) = take (P * L) g"
proof (induction P)
  case 0
  then show ?case by (simp add: scatter_def)
next
  case (Suc P)
  have "scatter g (Suc P) L = scatter g P L @ [take L (drop (P * L) g)]"
    by (simp add: scatter_def)
  then have "concat (scatter g (Suc P) L) = take (P * L) g @ take L (drop (P * L) g)"
    using Suc by simp
  also have "\<dots> = take (P * L + L) g" by (simp add: take_add)
  finally show ?case by (simp add: add.commute)
qed

lemma scatter_parts:
  assumes "length g = P * L"
  shows "length (scatter g P L) = P" and "\<forall>p\<in>set (scatter g P L). length p = L"
    and "concat (scatter g P L) = g"
proof -
  show "length (scatter g P L) = P" by (simp add: scatter_def)
  show "concat (scatter g P L) = g" using assms by (simp add: concat_scatter)
  show "\<forall>p\<in>set (scatter g P L). length p = L"
  proof
    fix p assume "p \<in> set (scatter g P L)"
    then obtain r where r: "r < P" "p = take L (drop (r * L) g)"
      by (auto simp: scatter_def)
    have "Suc r * L \<le> P * L" using r(1) by (intro mult_le_mono1) simp
    then have "r * L + L \<le> length g" using assms by simp
    then show "length p = L" using r(2) by simp
  qed
qed

lemma local_sort_parts:
  assumes "length parts = P" "\<forall>p\<in>set parts. length p = 2 ^ e"
  shows "parts_ok P (2 ^ e) (map (\<lambda>local. bitonic_sort_recursive_val local 0 (2 ^ e) True) parts)"
    and "mset (concat (map (\<lambda>local. bitonic_sort_recursive_val local 0 (2 ^ e) True) parts))
           = mset (concat parts)"
proof -
  show "parts_ok P (2 ^ e) (map (\<lambda>local. bitonic_sort_recursive_val local 0 (2 ^ e) True) parts)"
    using assms by (auto simp: parts_ok_def local_sort_correct)
  have "map mset (map (\<lambda>local. bitonic_sort_recursive_val local 0 (2 ^ e) True) parts) = map mset parts"
    using assms(2) by (auto simp: local_sort_correct)
  then show "mset (concat (map (\<lambda>local. bitonic_sort_recursive_val local 0 (2 ^ e) True) parts))
           = mset (concat parts)"
    by (simp only: mset_concat)
qed

lemma sorted_eq_sort:
  fixes xs ys :: "int list"
  assumes "sorted ys" "mset ys = mset xs"
  shows "ys = sort xs"
  using assms by (metis properties_for_sort)

lemma sort_padded:
  fixes xs :: "int list"
  assumes "\<forall>v\<in>set xs. v \<le> c"
  shows "sort (xs @ replicate k c) = sort xs @ replicate k c"
proof (rule properties_for_sort)
  show "mset (sort xs @ replicate k c) = mset (xs @ replicate k c)" by simp
  show "sorted (sort xs @ replicate k c)"
    using assms by (auto simp: sorted_append sorted_replicate)
qed

lemma verify_sorted_sorted:
  assumes "sorted g" "n \<le> length g"
  shows "verify_sorted g n"
  unfolding verify_sorted_def verify_loop_iff
  using assms by (auto intro!: sorted_nth_mono)

lemma effective_n_pos: "0 < effective_n arg"
  by (simp add: effective_n_def Let_def split: option.splits)

lemma effective_n_Some: "0 < n \<Longrightarrow> effective_n (Some n) = n"
  by (simp add: effective_n_def)

lemma effective_n_idem: "effective_n (Some (effective_n arg)) = effective_n arg"
  using effective_n_pos [of arg] by (simp add: effective_n_Some)

lemma np2_loop_result:
  assumes "np2_loop p n = Some r"
  shows "n \<le> r \<and> ((\<exists>a::nat. p = 2 ^ a) \<longrightarrow> (\<exists>b::nat. r = 2 ^ b)) \<and> (p \<le> INT_MAX \<longrightarrow> r \<le> INT_MAX)"
proof (rule np2_loop.raw_induct
    [where P = "\<lambda>p n r. n \<le> r \<and> ((\<exists>a::nat. p = 2 ^ a) \<longrightarrow> (\<exists>b::nat. r = 2 ^ b))
                  \<and> (p \<le> INT_MAX \<longrightarrow> r \<le> INT_MAX)", OF _ assms])
  fix loop p n r
  assume IH: "\<And>p n r. loop p n = Some r \<Longrightarrow>
      n \<le> r \<and> ((\<exists>a::nat. p = 2 ^ a) \<longrightarrow> (\<exists>b::nat. r = 2 ^ b)) \<and> (p \<le> INT_MAX \<longrightarrow> r \<le> INT_MAX)"
    and eq: "(if p < n then if INT_MAX < 2 * p then None else loop (2 * p) n else Some p) = Some r"
  show "n \<le> r \<and> ((\<exists>a::nat. p = 2 ^ a) \<longrightarrow> (\<exists>b::nat. r = 2 ^ b)) \<and> (p \<le> INT_MAX \<longrightarrow> r \<le> INT_MAX)"
  proof (cases "p < n")
    case False
    with eq show ?thesis by auto
  next
    case True
    with eq have no: "\<not> INT_MAX < 2 * p" and rec: "loop (2 * p) n = Some r"
      by (auto split: if_splits)
    have "\<exists>b::nat. 2 * p = 2 ^ b" if "\<exists>a::nat. p = 2 ^ a"
    proof -
      from that obtain a :: nat where "p = 2 ^ a" by blast
      then have "2 * p = 2 ^ Suc a" by simp
      then show ?thesis by blast
    qed
    with IH [OF rec] no show ?thesis by auto
  qed
qed

lemma pad_loop_bound:
  assumes "pad_loop N sizeP = Some r"
  shows "N \<le> INT_MAX \<longrightarrow> r \<le> INT_MAX"
  by (rule pad_loop.raw_induct [where P = "\<lambda>N sizeP r. N \<le> INT_MAX \<longrightarrow> r \<le> INT_MAX", OF _ assms])
    (auto split: if_splits)

lemma partition_sizer_range:
  assumes "partition_sizer n P = Some (N, Lz)" "0 < n" "0 < P"
  shows "n \<le> 2 ^ 30 \<and> P \<le> INT_MAX"
proof -
  from assms(1) obtain N0 where N0: "next_power_of_two n = Some N0" "pad_loop N0 P = Some N"
    by (auto simp: partition_sizer_def split: option.splits)
  from N0(1) assms(2) have l: "np2_loop 1 n = Some N0" by (simp add: next_power_of_two_def)
  have "\<exists>a::nat. (1::int) = 2 ^ a" by (rule exI [of _ 0]) simp
  with np2_loop_result [OF l] obtain b :: nat where b: "N0 = 2 ^ b" and nN0: "n \<le> N0"
    and N0max: "N0 \<le> INT_MAX"
    by (auto simp: INT_MAX_def)
  from b N0max have "b \<le> 30" by (simp add: pow2_int_le_INT_MAX)
  then have "N0 \<le> 2 ^ 30" unfolding b by (intro power_increasing) auto
  with nN0 have n: "n \<le> 2 ^ 30" by linarith
  have "0 < N0" using b by simp
  with pad_loop_result [OF N0(2)] have "N mod P = 0" "0 < N" by auto
  then have "P \<le> N" using assms(3) by (intro zdvd_imp_le) auto
  moreover have "N \<le> INT_MAX" using pad_loop_bound [OF N0(2)] N0max by simp
  ultimately show ?thesis using n by simp
qed

subsection \<open>Merge-select: overflow of the write index and allocation failure\<close>

declare merge_loop.simps [simp del] copy_rest.simps [simp del]

lemma copy_rest_cases:
  "copy_rest src len i t tmp =
     (if i < len \<and> INT_MAX < int t + int (len - i) then None
      else Some (fst (copy_rest_val src len i tmp), t + (len - i), snd (copy_rest_val src len i tmp)))"
proof (induction src len i tmp arbitrary: t rule: copy_rest_val.induct)
  case (1 src len i tmp)
  show ?case
  proof (cases "i < len")
    case False
    then show ?thesis
      by (subst copy_rest.simps, subst (1 2) copy_rest_val.simps) simp
  next
    case True
    show ?thesis
    proof (cases "INT_MAX \<le> int t")
      case ov: True
      have "copy_rest src len i t tmp = None"
        using True ov by (subst copy_rest.simps) simp
      moreover have "INT_MAX < int t + int (len - i)" using True ov by simp
      ultimately show ?thesis using True by simp
    next
      case no: False
      have f: "copy_rest src len i t tmp = copy_rest src len (i + 1) (t + 1) (tmp @ [src ! i])"
        using True no by (subst copy_rest.simps) simp
      have v: "copy_rest_val src len i tmp = copy_rest_val src len (i + 1) (tmp @ [src ! i])"
        using True by (subst copy_rest_val.simps) simp
      have e1: "int (t + 1) + int (len - (i + 1)) = int t + int (len - i)"
        using True by simp
      have e2: "t + 1 + (len - (i + 1)) = t + (len - i)" using True by simp
      have c: "(i + 1 < len \<and> INT_MAX < int t + int (len - i))
          \<longleftrightarrow> (i < len \<and> INT_MAX < int t + int (len - i))"
        using True no by auto
      show ?thesis
        unfolding f v "1.IH" [OF True, of "t + 1"] e1 e2 c ..
    qed
  qed
qed

lemma merge_loop_val_bounds:
  assumes "merge_loop_val a b len i j tmp = (i', j', tmp')" "i \<le> len" "j \<le> len"
  shows "i \<le> i' \<and> i' \<le> len \<and> j \<le> j' \<and> j' \<le> len"
  using assms
proof (induction a b len i j tmp rule: merge_loop_val.induct)
  case (1 a b len i j tmp)
  show ?case
  proof (cases "i < len \<and> j < len")
    case False
    with 1(3-5) show ?thesis by (subst (asm) merge_loop_val.simps) auto
  next
    case True
    show ?thesis
    proof (cases "a ! i \<le> b ! j")
      case le: True
      have "merge_loop_val a b len (i + 1) j (tmp @ [a ! i]) = (i', j', tmp')"
        using 1(3) True le by (subst (asm) merge_loop_val.simps) simp
      from "1.IH"(1) [OF True le this] True 1(5) show ?thesis by simp
    next
      case gt: False
      have "merge_loop_val a b len i (j + 1) (tmp @ [b ! j]) = (i', j', tmp')"
        using 1(3) True gt by (subst (asm) merge_loop_val.simps) simp
      from "1.IH"(2) [OF True gt this] True 1(4) show ?thesis by simp
    qed
  qed
qed

lemma merge_loop_val_exit:
  assumes "merge_loop_val a b len i j tmp = (i', j', tmp')"
  shows "\<not> (i' < len \<and> j' < len)"
  using assms
proof (induction a b len i j tmp rule: merge_loop_val.induct)
  case (1 a b len i j tmp)
  show ?case
  proof (cases "i < len \<and> j < len")
    case False
    with 1(3) show ?thesis by (subst (asm) merge_loop_val.simps) auto
  next
    case True
    show ?thesis
    proof (cases "a ! i \<le> b ! j")
      case le: True
      have "merge_loop_val a b len (i + 1) j (tmp @ [a ! i]) = (i', j', tmp')"
        using 1(3) True le by (subst (asm) merge_loop_val.simps) simp
      then show ?thesis by (rule "1.IH"(1) [OF True le])
    next
      case gt: False
      have "merge_loop_val a b len i (j + 1) (tmp @ [b ! j]) = (i', j', tmp')"
        using 1(3) True gt by (subst (asm) merge_loop_val.simps) simp
      then show ?thesis by (rule "1.IH"(2) [OF True gt])
    qed
  qed
qed

text \<open>
  The first loop stops at the overflow of \<open>t\<close>, or leaves \<open>t\<close> advanced by the number of
  cells it has written.
\<close>

lemma merge_loop_cases:
  assumes "i \<le> len" "j \<le> len" "int t \<le> INT_MAX"
  shows "merge_loop a b len i j t tmp = None \<and> INT_MAX < int t + int (len - i) + int (len - j)
       \<or> (\<exists>i' j' tmp'. merge_loop_val a b len i j tmp = (i', j', tmp')
             \<and> merge_loop a b len i j t tmp = Some (i', j', t + (i' - i) + (j' - j), tmp')
             \<and> int (t + (i' - i) + (j' - j)) \<le> INT_MAX)"
  using assms
proof (induction a b len i j tmp arbitrary: t rule: merge_loop_val.induct)
  case (1 a b len i j tmp)
  show ?case
  proof (cases "i < len \<and> j < len")
    case False
    then have "merge_loop a b len i j t tmp = Some (i, j, t, tmp)"
      by (subst merge_loop.simps) auto
    moreover have "merge_loop_val a b len i j tmp = (i, j, tmp)"
      using False by (subst merge_loop_val.simps) auto
    ultimately show ?thesis using 1(5) by simp
  next
    case True
    show ?thesis
    proof (cases "INT_MAX \<le> int t")
      case ov: True
      then have "merge_loop a b len i j t tmp = None"
        using True by (subst merge_loop.simps) simp
      moreover have "INT_MAX < int t + int (len - i) + int (len - j)"
        using ov True by simp
      ultimately show ?thesis by simp
    next
      case no: False
      then have t1: "int (t + 1) \<le> INT_MAX" by simp
      show ?thesis
      proof (cases "a ! i \<le> b ! j")
        case le: True
        have f: "merge_loop a b len i j t tmp = merge_loop a b len (i + 1) j (t + 1) (tmp @ [a ! i])"
          using True no le by (subst merge_loop.simps) simp
        have v: "merge_loop_val a b len i j tmp = merge_loop_val a b len (i + 1) j (tmp @ [a ! i])"
          using True le by (subst merge_loop_val.simps) simp
        have i1: "i + 1 \<le> len" using True by simp
        have e1: "int (t + 1) + int (len - (i + 1)) + int (len - j)
            = int t + int (len - i) + int (len - j)"
          using True by simp
        note p1 = "1.prems"
        from "1.IH"(1) [OF True le i1 1(4) t1] show ?thesis
        proof (elim disjE conjE exE, goal_cases)
          case 1
          then show ?case unfolding f e1 by simp
        next
          case (2 i' j' tmp')
          have b: "i + 1 \<le> i'"
            using merge_loop_val_bounds [OF 2(1) i1 p1(2)] by simp
          have e2: "t + 1 + (i' - (i + 1)) + (j' - j) = t + (i' - i) + (j' - j)" using b by simp
          from 2 show ?case unfolding f v e2 by simp
        qed
      next
        case gt: False
        have f: "merge_loop a b len i j t tmp = merge_loop a b len i (j + 1) (t + 1) (tmp @ [b ! j])"
          using True no gt by (subst merge_loop.simps) simp
        have v: "merge_loop_val a b len i j tmp = merge_loop_val a b len i (j + 1) (tmp @ [b ! j])"
          using True gt by (subst merge_loop_val.simps) simp
        have j1: "j + 1 \<le> len" using True by simp
        have e1: "int (t + 1) + int (len - i) + int (len - (j + 1))
            = int t + int (len - i) + int (len - j)"
          using True by simp
        note p1 = "1.prems"
        from "1.IH"(2) [OF True gt 1(3) j1 t1] show ?thesis
        proof (elim disjE conjE exE, goal_cases)
          case 1
          then show ?case unfolding f e1 by simp
        next
          case (2 i' j' tmp')
          have b: "j + 1 \<le> j'"
            using merge_loop_val_bounds [OF 2(1) p1(1) j1] by simp
          have e2: "t + 1 + (i' - i) + (j' - (j + 1)) = t + (i' - i) + (j' - j)" using b by simp
          from 2 show ?case unfolding f v e2 by simp
        qed
      qed
    qed
  qed
qed

text \<open>
  \<open>merge_and_select\<close> stops when \<open>malloc\<close> fails or when \<open>2 * len\<close> does not fit in an
  \<open>int\<close> (the write index \<open>t\<close> counts the \<open>2 * len\<close> cells written); otherwise it returns
  the value \<open>merge_and_select_val\<close>.
\<close>

lemma merge_and_select_cases:
  "merge_and_select tmp_ok a b len keep_low =
     (if \<not> tmp_ok then Inl Malloc_failed
      else if INT_MAX < 2 * int len then Inl Int_overflow
      else Inr (merge_and_select_val a b len keep_low))"
proof (cases tmp_ok)
  case False
  then show ?thesis by (simp add: merge_and_select_def)
next
  case ok: True
  have t0: "int 0 \<le> INT_MAX" by (simp add: INT_MAX_def)
  from merge_loop_cases [OF _ _ t0, of 0 len 0 a b "[]"]
  consider (stop) "merge_loop a b len 0 0 0 [] = None" "INT_MAX < 2 * int len"
    | (go) i' j' tmp' where "merge_loop_val a b len 0 0 [] = (i', j', tmp')"
        "merge_loop a b len 0 0 0 [] = Some (i', j', i' + j', tmp')"
        "int (i' + j') \<le> INT_MAX"
    by auto
  then show ?thesis
  proof cases
    case stop
    with ok show ?thesis by (simp add: merge_and_select_def)
  next
    case go
    from merge_loop_val_bounds [OF go(1)] have b: "i' \<le> len" "j' \<le> len" by simp_all
    note ex = merge_loop_val_exit [OF go(1)]
    let ?ca = "copy_rest_val a len i' tmp'"
    let ?cb = "copy_rest_val b len j' (snd ?ca)"
    let ?out = "if keep_low then take len (snd ?cb) else take len (drop len (snd ?cb))"
    have val: "merge_and_select_val a b len keep_low = ?out"
      by (simp add: merge_and_select_val_def go(1) split: prod.splits)
    have n1: "i' + j' + (len - i') = len + j'" using b by simp
    have n2: "len + j' + (len - j') = 2 * len" using b by simp
    have ms: "merge_and_select tmp_ok a b len keep_low =
        (case copy_rest a len i' (i' + j') tmp' of
           None \<Rightarrow> Inl Int_overflow
         | Some (i2, t2, tmp2) \<Rightarrow>
        (case copy_rest b len j' t2 tmp2 of
           None \<Rightarrow> Inl Int_overflow
         | Some (j3, t3, tmp3) \<Rightarrow>
             Inr (if keep_low then take len tmp3 else take len (drop len tmp3))))"
      using ok by (simp add: merge_and_select_def go(2))
    show ?thesis
    proof (cases "INT_MAX < 2 * int len")
      case False
      have ca: "copy_rest a len i' (i' + j') tmp' = Some (fst ?ca, len + j', snd ?ca)"
        using False b by (subst copy_rest_cases) (simp add: n1)
      have cb: "copy_rest b len j' (len + j') (snd ?ca) = Some (fst ?cb, 2 * len, snd ?cb)"
        using False b by (subst copy_rest_cases) (simp add: n2)
      have "merge_and_select tmp_ok a b len keep_low = Inr ?out" by (simp add: ms ca cb)
      then show ?thesis using False ok val by simp
    next
      case True
      show ?thesis
      proof (cases "i' < len")
        case il: True
        then have "j' = len" using ex b by simp
        then have "INT_MAX < int (i' + j') + int (len - i')" using True il by simp
        then have ca: "copy_rest a len i' (i' + j') tmp' = None"
          using il by (subst copy_rest_cases) simp
        have "merge_and_select tmp_ok a b len keep_low = Inl Int_overflow" by (simp add: ms ca)
        then show ?thesis using True ok by simp
      next
        case False
        then have i: "i' = len" using b by simp
        have jl: "j' < len" using go(3) True i b by simp
        have ca: "copy_rest a len i' (i' + j') tmp' = Some (fst ?ca, len + j', snd ?ca)"
          using i by (subst copy_rest_cases) simp
        have "INT_MAX < int (len + j') + int (len - j')" using True b by simp
        then have cb: "copy_rest b len j' (len + j') (snd ?ca) = None"
          using jl by (subst copy_rest_cases) simp
        have "merge_and_select tmp_ok a b len keep_low = Inl Int_overflow" by (simp add: ms ca cb)
        then show ?thesis using True ok by simp
      qed
    qed
  qed
qed

text \<open>
  Claim C2, amended. For ascending \<open>A\<close> and \<open>B\<close> of the same length \<open>L\<close> with
  \<open>2 * L \<le> INT_MAX\<close> and either value of \<open>keep_low\<close>, \<open>merge_and_select\<close>, when \<open>malloc\<close>
  gives it its buffer, returns \<open>L\<close> values in ascending order; they are the \<open>L\<close> smallest
  values of \<open>A\<close> and \<open>B\<close> together when \<open>keep_low\<close> holds (the first \<open>L\<close> entries of the
  sorted union), and the \<open>L\<close> largest otherwise (its last \<open>L\<close> entries). When \<open>malloc\<close>
  fails, the call aborts the run.
\<close>

theorem merge_and_select_halves:
  assumes "sorted A" and "sorted B" and "length A = L" and "length B = L"
    and "2 * int L \<le> INT_MAX"
  shows "(\<exists>out. merge_and_select True A B L keep_low = Inr out
            \<and> length out = L
            \<and> sorted out
            \<and> mset out =
                (if keep_low then mset (take L (sort (A @ B))) else mset (drop L (sort (A @ B)))))
       \<and> merge_and_select False A B L keep_low = Inl Malloc_failed"
  using assms
  by (simp add: merge_and_select_cases merge_and_select_eq sorted_wrt_take sorted_wrt_drop)

theorem merge_and_select_halves_witness:
  "sorted [1, 3, 5, 8 :: int] \<and> sorted [2, 4, 7, 9 :: int]
   \<and> 2 * int 4 \<le> INT_MAX
   \<and> merge_and_select True [1, 3, 5, 8] [2, 4, 7, 9] 4 False = Inr [5, 7, 8, 9]
   \<and> mset [5, 7, 8, 9 :: int] = mset (drop 4 (sort ([1, 3, 5, 8] @ [2, 4, 7, 9])))
   \<and> merge_and_select False [1, 3, 5, 8] [2, 4, 7, 9] 4 False = Inl Malloc_failed"
proof -
  have e: "merge_and_select True [1, 3, 5, 8] [2, 4, 7, 9] 4 False = Inr [5, 7, 8, 9]"
    by (simp add: merge_and_select_def merge_loop.simps copy_rest.simps INT_MAX_def)
  have b: "2 * int 4 \<le> INT_MAX" by (simp add: INT_MAX_def)
  from merge_and_select_halves [of "[1, 3, 5, 8]" "[2, 4, 7, 9]" 4 False, OF _ _ _ _ b]
  show ?thesis unfolding e using b by simp
qed

text \<open>
  The claim as stated, for every length \<open>L\<close>, fails where the write index overflows: for
  two ascending sequences of length \<open>L = 2^30\<close> the index \<open>t\<close> would have to reach \<open>2^31\<close>.
\<close>

theorem merge_and_select_overflow:
  "sorted (replicate 1073741824 (0::int))
   \<and> length (replicate 1073741824 (0::int)) = 1073741824
   \<and> merge_and_select True (replicate 1073741824 0) (replicate 1073741824 0) 1073741824 True
       = Inl Int_overflow
   \<and> merge_and_select True (replicate 1073741824 0) (replicate 1073741824 0) 1073741824 False
       = Inl Int_overflow"
  by (simp add: merge_and_select_cases INT_MAX_def sorted_replicate)

subsection \<open>The local sorter: overflow of the index sums\<close>

declare cas_loop.simps [simp del] bitonic_merge_recursive.simps [simp del]
  bitonic_sort_recursive.simps [simp del]

text \<open>
  On a segment that ends at or below \<open>INT_MAX\<close> none of the sums \<open>low + k\<close> and \<open>i + k\<close>
  overflows, and the functions return the values \<open>cas_loop_val\<close>,
  \<open>bitonic_merge_recursive_val\<close> and \<open>bitonic_sort_recursive_val\<close>.
\<close>

lemma cas_loop_no_overflow:
  "int low + 2 * int k \<le> INT_MAX \<Longrightarrow> cas_loop arr low k dir i = Some (cas_loop_val arr low k dir i)"
proof (induction arr low k dir i rule: cas_loop_val.induct)
  case (1 arr low k dir i)
  have lk: "\<not> INT_MAX < int low + int k" using 1(2) by simp
  show ?case
  proof (cases "i < low + k")
    case False
    then show ?thesis using lk
      by (subst cas_loop.simps, subst cas_loop_val.simps) simp
  next
    case True
    then have ik: "\<not> INT_MAX < int i + int k" using 1(2) by simp
    show ?thesis
      using True lk ik "1.IH" [OF True 1(2)]
      by (subst cas_loop.simps, subst cas_loop_val.simps) simp
  qed
qed

lemma compare_and_swap_no_overflow:
  "int low + 2 * int k \<le> INT_MAX \<Longrightarrow>
     bitonic_compare_and_swap arr low k dir = Some (bitonic_compare_and_swap_val arr low k dir)"
  by (simp add: bitonic_compare_and_swap_def bitonic_compare_and_swap_val_def cas_loop_no_overflow)

lemma bitonic_merge_recursive_no_overflow:
  "int low + int cnt \<le> INT_MAX \<Longrightarrow>
     bitonic_merge_recursive arr low cnt dir = Some (bitonic_merge_recursive_val arr low cnt dir)"
proof (induction arr low cnt dir rule: bitonic_merge_recursive_val.induct)
  case (1 arr low cnt dir)
  show ?case
  proof (cases "cnt \<le> 1")
    case True
    then show ?thesis
      by (subst bitonic_merge_recursive.simps, subst bitonic_merge_recursive_val.simps) simp
  next
    case False
    define k where "k = cnt div 2"
    define arr1 where "arr1 = bitonic_compare_and_swap_val arr low k dir"
    define arr2 where "arr2 = bitonic_merge_recursive_val arr1 low k dir"
    have k: "2 * k \<le> cnt" by (simp add: k_def)
    then have b2: "int low + 2 * int k \<le> INT_MAX" using 1(3) by simp
    then have b1: "int low + int k \<le> INT_MAX" by simp
    have b3: "int (low + k) + int k \<le> INT_MAX" using b2 by simp
    have c: "bitonic_compare_and_swap arr low k dir = Some arr1"
      unfolding arr1_def using b2 by (rule compare_and_swap_no_overflow)
    have m1: "bitonic_merge_recursive arr1 low k dir = Some arr2"
      unfolding arr2_def using "1.IH"(1) [OF False k_def arr1_def b1] .
    have m2: "bitonic_merge_recursive arr2 (low + k) k dir
        = Some (bitonic_merge_recursive_val arr2 (low + k) k dir)"
      using "1.IH"(2) [OF False k_def arr1_def arr2_def b3] .
    have "bitonic_merge_recursive arr low cnt dir
        = Some (bitonic_merge_recursive_val arr2 (low + k) k dir)"
      using False c m1 m2 b1
      by (subst bitonic_merge_recursive.simps) (simp add: Let_def k_def [symmetric])
    moreover have "bitonic_merge_recursive_val arr low cnt dir
        = bitonic_merge_recursive_val arr2 (low + k) k dir"
      using False
      by (subst bitonic_merge_recursive_val.simps) (simp add: Let_def k_def arr1_def arr2_def)
    ultimately show ?thesis by simp
  qed
qed

lemma bitonic_sort_recursive_no_overflow:
  "int low + int cnt \<le> INT_MAX \<Longrightarrow>
     bitonic_sort_recursive arr low cnt dir = Some (bitonic_sort_recursive_val arr low cnt dir)"
proof (induction arr low cnt dir rule: bitonic_sort_recursive_val.induct)
  case (1 arr low cnt dir)
  show ?case
  proof (cases "cnt \<le> 1")
    case True
    then show ?thesis
      by (subst bitonic_sort_recursive.simps, subst bitonic_sort_recursive_val.simps) simp
  next
    case False
    define k where "k = cnt div 2"
    define arr1 where "arr1 = bitonic_sort_recursive_val arr low k True"
    define arr2 where "arr2 = bitonic_sort_recursive_val arr1 (low + k) k False"
    have k: "2 * k \<le> cnt" by (simp add: k_def)
    then have b2: "int low + 2 * int k \<le> INT_MAX" using 1(3) by simp
    then have b1: "int low + int k \<le> INT_MAX" by simp
    have b3: "int (low + k) + int k \<le> INT_MAX" using b2 by simp
    have s1: "bitonic_sort_recursive arr low k True = Some arr1"
      unfolding arr1_def using "1.IH"(1) [OF False k_def b1] .
    have s2: "bitonic_sort_recursive arr1 (low + k) k False = Some arr2"
      unfolding arr2_def using "1.IH"(2) [OF False k_def arr1_def b3] .
    have m: "bitonic_merge_recursive arr2 low cnt dir
        = Some (bitonic_merge_recursive_val arr2 low cnt dir)"
      using 1(3) by (rule bitonic_merge_recursive_no_overflow)
    have "bitonic_sort_recursive arr low cnt dir
        = Some (bitonic_merge_recursive_val arr2 low cnt dir)"
      using False s1 s2 m b1
      by (subst bitonic_sort_recursive.simps) (simp add: Let_def k_def [symmetric])
    moreover have "bitonic_sort_recursive_val arr low cnt dir
        = bitonic_merge_recursive_val arr2 low cnt dir"
      using False
      by (subst bitonic_sort_recursive_val.simps) (simp add: Let_def k_def arr1_def arr2_def)
    ultimately show ?thesis by simp
  qed
qed

text \<open>
  Claim C10, amended. For an array \<open>arr\<close>, an offset \<open>low\<close>, a count \<open>cnt\<close> with \<open>low + cnt\<close>
  within the array and at most \<open>INT_MAX\<close>, and a direction \<open>dir\<close>,
  \<open>bitonic_sort_recursive arr low cnt dir\<close> returns, having changed cells of the segment
  \<open>[low, low + cnt)\<close> only: the array keeps its length, every cell outside the segment keeps
  its value, and the segment's final contents are a permutation of its initial contents.
\<close>

theorem bitonic_sort_recursive_frame:
  assumes "low + cnt \<le> length arr" and "int low + int cnt \<le> INT_MAX"
  shows "\<exists>arr'. bitonic_sort_recursive arr low cnt dir = Some arr'
       \<and> length arr' = length arr
       \<and> (\<forall>i. i < length arr \<and> (i < low \<or> low + cnt \<le> i) \<longrightarrow> arr' ! i = arr ! i)
       \<and> mset (take cnt (drop low arr')) = mset (take cnt (drop low arr))"
proof -
  let ?arr' = "bitonic_sort_recursive_val arr low cnt dir"
  have r: "bitonic_sort_recursive arr low cnt dir = Some ?arr'"
    using assms(2) by (rule bitonic_sort_recursive_no_overflow)
  have so: "same_outside arr ?arr' low cnt"
    using assms(1) by (rule same_outside_sort)
  have "length ?arr' = length arr
       \<and> (\<forall>i. i < length arr \<and> (i < low \<or> low + cnt \<le> i) \<longrightarrow> ?arr' ! i = arr ! i)
       \<and> mset (take cnt (drop low ?arr')) = mset (take cnt (drop low arr))"
    using so same_outside_segment [OF so] by (auto simp: same_outside_def)
  with r show ?thesis by blast
qed

theorem bitonic_sort_recursive_frame_witness:
  "(2::nat) + 4 \<le> length [5, 3, 8, 1, 9, 2, 7, 4 :: int]
   \<and> int 2 + int 4 \<le> INT_MAX
   \<and> bitonic_sort_recursive [5, 3, 8, 1, 9, 2, 7, 4] 2 4 False = Some [5, 3, 9, 8, 2, 1, 7, 4]
   \<and> (\<exists>arr'. bitonic_sort_recursive [5, 3, 8, 1, 9, 2, 7, 4] 2 4 False = Some arr'
        \<and> length arr' = length [5, 3, 8, 1, 9, 2, 7, 4 :: int]
        \<and> arr' ! 0 = 5 \<and> arr' ! 1 = 3 \<and> arr' ! 6 = 7 \<and> arr' ! 7 = 4
        \<and> mset (take 4 (drop 2 arr')) = mset (take 4 (drop 2 [5, 3, 8, 1, 9, 2, 7, 4])))"
proof -
  have e: "bitonic_sort_recursive [5, 3, 8, 1, 9, 2, 7, 4] 2 4 False = Some [5, 3, 9, 8, 2, 1, 7, 4]"
    by (simp add: bitonic_sort_recursive.simps bitonic_merge_recursive.simps
        bitonic_compare_and_swap_def cas_loop.simps swap_int_def Let_def INT_MAX_def)
  have b: "int 2 + int 4 \<le> INT_MAX" by (simp add: INT_MAX_def)
  from bitonic_sort_recursive_frame [of 2 4 "[5, 3, 8, 1, 9, 2, 7, 4]" False, OF _ b]
  show ?thesis unfolding e using b by simp
qed

text \<open>
  The claim as stated, for every segment within the array, fails where the segment ends
  above \<open>INT_MAX\<close>: for \<open>low = INT_MAX\<close> and \<open>cnt = 2\<close> in an array of \<open>2^31 + 1\<close> cells the
  sum \<open>low + k\<close> overflows.
\<close>

theorem bitonic_sort_recursive_overflow:
  "(2147483647::nat) + 2 \<le> length (replicate 2147483649 (0::int))
   \<and> bitonic_sort_recursive (replicate 2147483649 0) 2147483647 2 True = None"
  by (simp add: bitonic_sort_recursive.simps INT_MAX_def)

subsection \<open>One round of the network: faults\<close>

lemma lockstep_map_Inr:
  "(\<And>x. x \<in> set xs \<Longrightarrow> f x = Inr (g x)) \<Longrightarrow> lockstep (map f xs) = Inr (map g xs)"
  by (induction xs) simp_all

lemma lockstep_Inr:
  "lockstep rs = Inr vs \<Longrightarrow> rs = map Inr vs"
proof (induction rs arbitrary: vs)
  case Nil
  then show ?case by simp
next
  case (Cons r rs)
  then show ?case by (auto split: sum.splits)
qed

lemma lockstep_map_Inl:
  "xs \<noteq> [] \<Longrightarrow> (\<And>x. x \<in> set xs \<Longrightarrow> f x = Inl e) \<Longrightarrow> lockstep (map f xs) = Inl e"
  by (cases xs) simp_all

lemma rank_round_cases:
  "rank_round heap parts L k j rank =
     (if \<not> heap (Merge_tmp k j rank) then Inl Malloc_failed
      else if INT_MAX < 2 * int L then Inl Int_overflow
      else Inr (exchange_local parts L k j rank))"
  by (simp add: rank_round_def exchange_local_def Let_def merge_and_select_cases)

text \<open>
  A round in which every process gets its buffer and \<open>2 * local_size\<close> fits an \<open>int\<close>
  leaves the partitions \<open>exchange_round\<close>; a round that returns has left them.
\<close>

lemma network_round_no_fault:
  assumes "\<forall>r<P. heap (Merge_tmp k j r)" "2 * int L \<le> INT_MAX"
  shows "network_round heap P L k j parts = Inr (exchange_round P L k j parts)"
  unfolding network_round_def exchange_round_def
  using assms by (intro lockstep_map_Inr) (simp add: rank_round_cases)

lemma network_round_Inr:
  assumes "network_round heap P L k j parts = Inr ps"
  shows "ps = exchange_round P L k j parts"
proof -
  from assms have m: "map (rank_round heap parts L k j) [0..<P] = map Inr ps"
    unfolding network_round_def by (rule lockstep_Inr)
  then have len: "length ps = P" by (metis length_map length_upt minus_nat.diff_0)
  show ?thesis
  proof (rule nth_equalityI)
    show "length ps = length (exchange_round P L k j parts)" using len by simp
    fix r assume "r < length ps"
    then have r: "r < P" using len by simp
    from m have "map (rank_round heap parts L k j) [0..<P] ! r = map Inr ps ! r" by simp
    then have "rank_round heap parts L k j r = Inr (ps ! r)" using r len by simp
    then have "ps ! r = exchange_local parts L k j r"
      by (simp add: rank_round_cases split: if_splits)
    then show "ps ! r = exchange_round P L k j parts ! r"
      using r by (simp add: exchange_round_def)
  qed
qed

lemma do_round_no_fault:
  assumes "\<forall>r<P. heap (Merge_tmp k j r)" "2 * int L \<le> INT_MAX"
  shows "do_round heap P L k j st = Inr (do_round_val P L k j st)"
  by (simp add: do_round_def do_round_val_def Let_def network_round_no_fault [OF assms])

lemma do_round_Inr:
  assumes "do_round heap P L k j st = Inr st'"
  shows "st' = do_round_val P L k j st"
  using assms network_round_Inr [of heap P L k j "fst st"]
  by (auto simp: do_round_def do_round_val_def Let_def split: sum.splits)

lemma do_round_Inl:
  assumes "do_round heap P L k j st = Inl x"
  shows "snd x = st"
  using assms by (auto simp: do_round_def split: sum.splits)

subsection \<open>The loops of the network run the schedule\<close>

declare net_inner.simps [simp del]

lemma half_pow2_Suc: "(2::nat) ^ Suc n div 2 = 2 ^ n"
  by simp

lemma net_inner_zero: "net_inner heap P L k 0 st = Inr st"
  by (subst net_inner.simps) simp

lemma net_inner_step:
  "net_inner heap P L (2 ^ s) (2 ^ n) st =
     (case do_round heap P L (2 ^ s) (2 ^ n) st of
        Inl stop \<Rightarrow> Inl stop
      | Inr st' \<Rightarrow> net_inner heap P L (2 ^ s) (2 ^ n div 2) st')"
  by (subst net_inner.simps) simp

text \<open>Without faults, the inner loop started at \<open>j = 2^(n-1)\<close> runs \<open>n\<close> rounds.\<close>

lemma net_inner_no_fault:
  assumes "\<forall>k j r. heap (Merge_tmp k j r)" "2 * int L \<le> INT_MAX"
  shows "net_inner heap P L (2 ^ s) (2 ^ n div 2) st = Inr (run_rounds P L (phase_rounds s n) st)"
proof (induction n arbitrary: st)
  case 0
  then show ?case by (simp add: net_inner_zero phase_rounds_def)
next
  case (Suc n)
  have d: "do_round heap P L (2 ^ s) (2 ^ n) st = Inr (do_round_val P L (2 ^ s) (2 ^ n) st)"
    using assms by (intro do_round_no_fault) simp_all
  show ?case
    unfolding half_pow2_Suc net_inner_step d
    by (simp add: Suc.IH phase_rounds_Suc)
qed

text \<open>
  Whatever fails, the state that the inner loop reaches is the one that a first part of
  its rounds leaves, and all of them when the loop returns.
\<close>

lemma net_inner_prefix:
  "\<exists>rs rs'. phase_rounds s n = rs @ rs'
     \<and> net_state_of (net_inner heap P L (2 ^ s) (2 ^ n div 2) st) = run_rounds P L rs st
     \<and> (\<forall>st'. net_inner heap P L (2 ^ s) (2 ^ n div 2) st = Inr st' \<longrightarrow> rs' = [])"
proof (induction n arbitrary: st)
  case 0
  show ?case by (simp add: net_inner_zero phase_rounds_def net_state_of_def)
next
  case (Suc n)
  show ?case
  proof (cases "do_round heap P L (2 ^ s) (2 ^ n) st")
    case (Inl x)
    then have "net_inner heap P L (2 ^ s) (2 ^ Suc n div 2) st = Inl x"
      unfolding half_pow2_Suc net_inner_step by simp
    moreover have "snd x = st" using Inl by (rule do_round_Inl)
    ultimately have "phase_rounds s (Suc n) = [] @ phase_rounds s (Suc n)
        \<and> net_state_of (net_inner heap P L (2 ^ s) (2 ^ Suc n div 2) st) = run_rounds P L [] st
        \<and> (\<forall>st'. net_inner heap P L (2 ^ s) (2 ^ Suc n div 2) st = Inr st' \<longrightarrow> phase_rounds s (Suc n) = [])"
      by (cases x) (simp add: net_state_of_def)
    then show ?thesis by blast
  next
    case (Inr st1)
    then have st1: "st1 = do_round_val P L (2 ^ s) (2 ^ n) st" by (rule do_round_Inr)
    have step: "net_inner heap P L (2 ^ s) (2 ^ Suc n div 2) st
        = net_inner heap P L (2 ^ s) (2 ^ n div 2) st1"
      unfolding half_pow2_Suc net_inner_step [of heap P L s n st] Inr by simp
    from Suc.IH [of st1] obtain rs rs' where
      r: "phase_rounds s n = rs @ rs'"
        "net_state_of (net_inner heap P L (2 ^ s) (2 ^ n div 2) st1) = run_rounds P L rs st1"
        "\<forall>st'. net_inner heap P L (2 ^ s) (2 ^ n div 2) st1 = Inr st' \<longrightarrow> rs' = []"
      by blast
    have "phase_rounds s (Suc n) = ((2 ^ s, 2 ^ n) # rs) @ rs'
        \<and> net_state_of (net_inner heap P L (2 ^ s) (2 ^ Suc n div 2) st)
            = run_rounds P L ((2 ^ s, 2 ^ n) # rs) st
        \<and> (\<forall>st'. net_inner heap P L (2 ^ s) (2 ^ Suc n div 2) st = Inr st' \<longrightarrow> rs' = [])"
      unfolding step using r by (simp add: phase_rounds_Suc st1)
    then show ?thesis by blast
  qed
qed

lemma net_outer_step:
  assumes "s \<le> m"
  shows "net_outer heap (2 ^ m) L (2 ^ s) st =
     (case net_inner heap (2 ^ m) L (2 ^ s) (2 ^ s div 2) st of
        Inl stop \<Rightarrow> Some (Inl stop)
      | Inr st' \<Rightarrow>
          if 29 < s then Some (Inl (Int_overflow, st'))
          else net_outer heap (2 ^ m) L (2 ^ Suc s) st')"
proof -
  have le: "(2::nat) ^ s \<le> 2 ^ m" using assms by simp
  have ov: "(INT_MAX < 2 * (2::int) ^ s) = (29 < s)"
  proof (cases "s \<le> 29")
    case True
    then show ?thesis using pow2_nat_le_INT_MAX [of s] by simp
  next
    case False
    then have "30 \<le> s" by simp
    then have "(2::int) ^ 30 \<le> 2 ^ s" by (intro power_increasing) simp_all
    then have "INT_MAX < 2 * (2::int) ^ s" by (simp add: INT_MAX_def)
    with False show ?thesis by simp
  qed
  show ?thesis
    using le by (subst net_outer.simps) (simp add: ov split: sum.splits)
qed

lemma net_outer_done: "net_outer heap (2 ^ m) L (2 * 2 ^ m) st = Some (Inr st)"
  by (subst net_outer.simps) simp

text \<open>
  Without faults in the rounds, the outer loop runs the phases \<open>k = 2^s, \<dots>, 2^m\<close>; it
  returns when \<open>2^m \<le> 2^29\<close>, and for \<open>2^m = 2^30\<close> it stops after the last phase at
  the overflow of \<open>k <<= 1\<close>.
\<close>

lemma net_outer_no_fault:
  assumes "0 < s" "s \<le> Suc m" "s \<le> 30" "m \<le> 30"
    and "\<forall>k j r. heap (Merge_tmp k j r)" "m = 0 \<or> 2 * int L \<le> INT_MAX"
  shows "net_outer heap (2 ^ m) L (2 ^ s) st =
           Some (if m \<le> 29 then Inr (run_rounds (2 ^ m) L (schedule_from s m) st)
                 else Inl (Int_overflow, run_rounds (2 ^ m) L (schedule_from s m) st))"
  using assms(1-3)
proof (induction "Suc m - s" arbitrary: s st)
  case 0
  then have s: "s = Suc m" by simp
  then have "m \<le> 29" using 0 by simp
  then show ?case unfolding s by (simp add: net_outer_done schedule_from_done)
next
  case (Suc d)
  then have sm: "s \<le> m" by simp
  then have L: "2 * int L \<le> INT_MAX" using assms(6) Suc.prems(1) by auto
  let ?st1 = "run_rounds (2 ^ m) L (phase_rounds s s) st"
  have inner: "net_inner heap (2 ^ m) L (2 ^ s) (2 ^ s div 2) st = Inr ?st1"
    using assms(5) L by (rule net_inner_no_fault)
  have sched: "schedule_from s m = phase_rounds s s @ schedule_from (Suc s) m"
    using sm by (rule schedule_from_step)
  show ?case
  proof (cases "29 < s")
    case True
    then have s30: "s = 30" "m = 30" using Suc.prems(3) sm assms(4) by simp_all
    have "schedule_from (Suc s) m = []" unfolding s30 by (simp add: schedule_from_done)
    then show ?thesis
      unfolding net_outer_step [OF sm] inner sched using True s30 by simp
  next
    case False
    have "net_outer heap (2 ^ m) L (2 ^ Suc s) ?st1 =
        Some (if m \<le> 29 then Inr (run_rounds (2 ^ m) L (schedule_from (Suc s) m) ?st1)
              else Inl (Int_overflow, run_rounds (2 ^ m) L (schedule_from (Suc s) m) ?st1))"
      using Suc.hyps(2) sm False by (intro Suc.hyps(1)) simp_all
    then show ?thesis
      unfolding net_outer_step [OF sm] inner sched using False by simp
  qed
qed

text \<open>
  Whatever fails, the outer loop stops, in the state that a first part of the schedule
  leaves; it returns only when \<open>2^m \<le> 2^29\<close>, and then after the whole schedule.
\<close>

lemma net_outer_prefix:
  assumes "0 < s" "s \<le> Suc m" "s \<le> 30" "m \<le> 30"
  shows "\<exists>r rs rs'. net_outer heap (2 ^ m) L (2 ^ s) st = Some r
     \<and> schedule_from s m = rs @ rs'
     \<and> net_state_of r = run_rounds (2 ^ m) L rs st
     \<and> (\<forall>st'. r = Inr st' \<longrightarrow> rs' = [] \<and> m \<le> 29)"
  using assms(1-3)
proof (induction "Suc m - s" arbitrary: s st)
  case 0
  then have s: "s = Suc m" by simp
  then have "m \<le> 29" using 0 by simp
  then have "net_outer heap (2 ^ m) L (2 ^ s) st = Some (Inr st)
     \<and> schedule_from s m = [] @ []
     \<and> net_state_of (Inr st) = run_rounds (2 ^ m) L [] st
     \<and> (\<forall>st'. Inr st = (Inr st' :: fault \<times> net_state + net_state) \<longrightarrow> [] = ([] :: (nat \<times> nat) list) \<and> m \<le> 29)"
    unfolding s by (simp add: net_outer_done schedule_from_done net_state_of_def)
  then show ?case by blast
next
  case (Suc d)
  then have sm: "s \<le> m" by simp
  have sched: "schedule_from s m = phase_rounds s s @ schedule_from (Suc s) m"
    using sm by (rule schedule_from_step)
  from net_inner_prefix [of s s heap "2 ^ m" L st] obtain ps ps' where
    p: "phase_rounds s s = ps @ ps'"
      "net_state_of (net_inner heap (2 ^ m) L (2 ^ s) (2 ^ s div 2) st) = run_rounds (2 ^ m) L ps st"
      "\<forall>st'. net_inner heap (2 ^ m) L (2 ^ s) (2 ^ s div 2) st = Inr st' \<longrightarrow> ps' = []"
    by blast
  show ?case
  proof (cases "net_inner heap (2 ^ m) L (2 ^ s) (2 ^ s div 2) st")
    case (Inl x)
    have "net_outer heap (2 ^ m) L (2 ^ s) st = Some (Inl x)
       \<and> schedule_from s m = ps @ (ps' @ schedule_from (Suc s) m)
       \<and> net_state_of (Inl x) = run_rounds (2 ^ m) L ps st
       \<and> (\<forall>st'. Inl x = (Inr st' :: fault \<times> net_state + net_state) \<longrightarrow>
             ps' @ schedule_from (Suc s) m = [] \<and> m \<le> 29)"
      using p(1,2) unfolding net_outer_step [OF sm] Inl sched by simp
    then show ?thesis by blast
  next
    case (Inr st1)
    with p have ps: "ps = phase_rounds s s" and st1: "st1 = run_rounds (2 ^ m) L (phase_rounds s s) st"
      by (simp_all add: net_state_of_def)
    show ?thesis
    proof (cases "29 < s")
      case True
      then have s30: "s = 30" "m = 30" using Suc.prems(3) sm assms(4) by simp_all
      have e: "schedule_from (Suc s) m = []" unfolding s30 by (simp add: schedule_from_done)
      have "net_outer heap (2 ^ m) L (2 ^ s) st = Some (Inl (Int_overflow, st1))
         \<and> schedule_from s m = phase_rounds s s @ []
         \<and> net_state_of (Inl (Int_overflow, st1)) = run_rounds (2 ^ m) L (phase_rounds s s) st
         \<and> (\<forall>st'. Inl (Int_overflow, st1) = (Inr st' :: fault \<times> net_state + net_state) \<longrightarrow>
               [] = ([] :: (nat \<times> nat) list) \<and> m \<le> 29)"
        unfolding net_outer_step [OF sm] Inr sched e using True st1
        by (simp add: net_state_of_def)
      then show ?thesis by blast
    next
      case False
      from Suc.hyps(2) sm False have "\<exists>r rs rs'. net_outer heap (2 ^ m) L (2 ^ Suc s) st1 = Some r
         \<and> schedule_from (Suc s) m = rs @ rs'
         \<and> net_state_of r = run_rounds (2 ^ m) L rs st1
         \<and> (\<forall>st'. r = Inr st' \<longrightarrow> rs' = [] \<and> m \<le> 29)"
        by (intro Suc.hyps(1)) simp_all
      then obtain r rs rs' where
        r: "net_outer heap (2 ^ m) L (2 ^ Suc s) st1 = Some r"
          "schedule_from (Suc s) m = rs @ rs'"
          "net_state_of r = run_rounds (2 ^ m) L rs st1"
          "\<forall>st'. r = Inr st' \<longrightarrow> rs' = [] \<and> m \<le> 29"
        by blast
      have "net_outer heap (2 ^ m) L (2 ^ s) st = Some r
         \<and> schedule_from s m = (phase_rounds s s @ rs) @ rs'
         \<and> net_state_of r = run_rounds (2 ^ m) L (phase_rounds s s @ rs) st
         \<and> (\<forall>st'. r = Inr st' \<longrightarrow> rs' = [] \<and> m \<le> 29)"
        unfolding net_outer_step [OF sm] Inr sched using False r st1 by simp
      then show ?thesis by blast
    qed
  qed
qed

lemma exchange_network_no_fault:
  assumes "m \<le> 30" "\<forall>k j r. heap (Merge_tmp k j r)" "m = 0 \<or> 2 * int L \<le> INT_MAX"
  shows "exchange_network heap (2 ^ m) L parts =
           Some (if m \<le> 29 then Inr (run_rounds (2 ^ m) L (schedule_from 1 m) (parts, []))
                 else Inl (Int_overflow, run_rounds (2 ^ m) L (schedule_from 1 m) (parts, [])))"
  using net_outer_no_fault [of 1 m heap L "(parts, [])"] assms by (simp add: exchange_network_def)

lemma exchange_network_prefix:
  assumes "m \<le> 30"
  shows "\<exists>r rs rs'. exchange_network heap (2 ^ m) L parts = Some r
     \<and> schedule_from 1 m = rs @ rs'
     \<and> net_state_of r = run_rounds (2 ^ m) L rs (parts, [])
     \<and> (\<forall>st'. r = Inr st' \<longrightarrow> rs' = [] \<and> m \<le> 29)"
  using net_outer_prefix [of 1 m heap L "(parts, [])"] assms by (simp add: exchange_network_def)

subsection \<open>The network sorts\<close>

lemma run_schedule_sorts:
  assumes "parts_ok (2 ^ m) L parts"
  shows "parts_ok (2 ^ m) L (fst (run_rounds (2 ^ m) L (schedule_from 1 m) (parts, [])))"
    and "sorted (concat (fst (run_rounds (2 ^ m) L (schedule_from 1 m) (parts, []))))"
    and "mset (concat (fst (run_rounds (2 ^ m) L (schedule_from 1 m) (parts, []))))
           = mset (concat parts)"
    and "\<forall>e\<in>set (snd (run_rounds (2 ^ m) L (schedule_from 1 m) (parts, []))).
           parts_ok (2 ^ m) L (snd (snd e))"
    and "map (\<lambda>(k, j, ps). (k, j)) (snd (run_rounds (2 ^ m) L (schedule_from 1 m) (parts, [])))
           = schedule_from 1 m"
proof -
  let ?st = "run_rounds (2 ^ m) L (schedule_from 1 m) (parts, [])"
  have ok: "net_ok L m m 0 parts ?st"
    using net_ok_schedule [OF net_ok_init [OF assms], of ] by simp
  then show "sorted (concat (fst ?st))" by (rule net_ok_sorted)
  from ok show "parts_ok (2 ^ m) L (fst ?st)" "mset (concat (fst ?st)) = mset (concat parts)"
    "\<forall>e\<in>set (snd ?st). parts_ok (2 ^ m) L (snd (snd e))"
    unfolding net_ok_def by simp_all
  show "map (\<lambda>(k, j, ps). (k, j)) (snd ?st) = schedule_from 1 m"
    by (simp add: log_run_rounds)
qed

lemma exchange_network_sorts:
  assumes "m \<le> 29" and "parts_ok (2 ^ m) L parts"
    and "\<forall>k j r. heap (Merge_tmp k j r)" and "m = 0 \<or> 2 * int L \<le> INT_MAX"
  shows "\<exists>final hist. exchange_network heap (2 ^ m) L parts = Some (Inr (final, hist))
           \<and> parts_ok (2 ^ m) L final
           \<and> sorted (concat final)
           \<and> mset (concat final) = mset (concat parts)
           \<and> (\<forall>e\<in>set hist. parts_ok (2 ^ m) L (snd (snd e)))
           \<and> map (\<lambda>(k, j, ps). (k, j)) hist = schedule_from 1 m"
proof -
  let ?st = "run_rounds (2 ^ m) L (schedule_from 1 m) (parts, [])"
  have m30: "m \<le> 30" using assms(1) by simp
  have run: "exchange_network heap (2 ^ m) L parts = Some (Inr (fst ?st, snd ?st))"
    using exchange_network_no_fault [OF m30 assms(3,4), of parts] assms(1) by simp
  with run_schedule_sorts [OF assms(2)] show ?thesis by blast
qed

text \<open>
  Every round of the schedule leaves ascending partitions of length \<open>L\<close>, so does every
  first part of the schedule.
\<close>

lemma schedule_from_rounds:
  assumes "(k, j) \<in> set (schedule_from s m)"
  shows "\<exists>t<m. j = 2 ^ t"
  using assms by (auto simp: schedule_from_def phase_rounds_def)

lemma run_rounds_parts_ok:
  assumes "parts_ok (2 ^ m) L (fst st)" "\<forall>e\<in>set (snd st). parts_ok (2 ^ m) L (snd (snd e))"
    and "\<forall>(k, j)\<in>set rs. \<exists>t<m. j = 2 ^ t"
  shows "parts_ok (2 ^ m) L (fst (run_rounds (2 ^ m) L rs st))
       \<and> (\<forall>e\<in>set (snd (run_rounds (2 ^ m) L rs st)). parts_ok (2 ^ m) L (snd (snd e)))"
  using assms
proof (induction rs arbitrary: st)
  case Nil
  then show ?case by simp
next
  case (Cons r rs)
  obtain k j where r: "r = (k, j)" by (cases r)
  from Cons.prems(3) r obtain t where t: "t < m" "j = 2 ^ t" by auto
  let ?new = "exchange_round (2 ^ m) L k (2 ^ t) (fst st)"
  have st': "do_round_val (2 ^ m) L k j st = (?new, snd st @ [(k, j, ?new)])"
    by (simp add: do_round_val_def Let_def t(2))
  have p': "parts_ok (2 ^ m) L ?new" using Cons.prems(1) t(1) by (rule exchange_round_ok)
  have "parts_ok (2 ^ m) L (fst (run_rounds (2 ^ m) L rs (do_round_val (2 ^ m) L k j st)))
       \<and> (\<forall>e\<in>set (snd (run_rounds (2 ^ m) L rs (do_round_val (2 ^ m) L k j st))).
             parts_ok (2 ^ m) L (snd (snd e)))"
    using Cons.prems(2,3) p' unfolding st' by (intro Cons.IH) simp_all
  then show ?case unfolding r by simp
qed

lemma exchange_network_parts_ok:
  assumes "m \<le> 30" "parts_ok (2 ^ m) L parts"
  shows "\<exists>r. exchange_network heap (2 ^ m) L parts = Some r
           \<and> parts_ok (2 ^ m) L (fst (net_state_of r))
           \<and> (\<forall>e\<in>set (snd (net_state_of r)). parts_ok (2 ^ m) L (snd (snd e)))"
proof -
  from exchange_network_prefix [OF assms(1), of heap L parts] obtain r rs rs' where
    r: "exchange_network heap (2 ^ m) L parts = Some r" "schedule_from 1 m = rs @ rs'"
      "net_state_of r = run_rounds (2 ^ m) L rs (parts, [])"
    by blast
  have "\<forall>(k, j)\<in>set rs. \<exists>t<m. j = 2 ^ t"
  proof (clarify)
    fix k j assume "(k, j) \<in> set rs"
    then have "(k, j) \<in> set (schedule_from 1 m)" using r(2) by simp
    then show "\<exists>t<m. j = 2 ^ t" by (rule schedule_from_rounds)
  qed
  from run_rounds_parts_ok [OF _ _ this, of L "(parts, [])"] assms(2) r show ?thesis
    by simp
qed

subsection \<open>Partner selection and the exchange of a pair\<close>

text \<open>
  Claim C9. In a round \<open>(k, j)\<close> of the schedule (\<open>j\<close> a power of two with \<open>j < k \<le> P\<close>, both
  powers of two as \<open>P\<close> is), partnering by \<open>rank XOR j\<close> is an involution without fixed
  points on the ranks below \<open>P\<close>, the two partners compute complementary values of
  \<open>keep_low\<close>, and the merge-select on both sides preserves the multiset union of the two
  partitions of the pair. The partitions \<open>exchange_round\<close> are those that the round of the
  code leaves: whenever it returns, and it returns when every process gets its buffer and
  \<open>2 * L\<close> fits an \<open>int\<close>.
\<close>

theorem exchange_pairing:
  assumes "j = 2 ^ t" and "k = 2 ^ s" and "j < k" and "k \<le> P" and "P = 2 ^ m"
    and "rank < P" and "length parts = P"
    and "\<forall>p\<in>set parts. sorted p \<and> length p = L"
  shows "(rank XOR j) XOR j = rank \<and> rank XOR j \<noteq> rank \<and> rank XOR j < P
       \<and> select_keep_low (rank XOR j) k j = (\<not> select_keep_low rank k j)
       \<and> mset (exchange_round P L k j parts ! rank)
           + mset (exchange_round P L k j parts ! (rank XOR j))
         = mset (parts ! rank) + mset (parts ! (rank XOR j))
       \<and> (\<forall>heap ps. network_round heap P L k j parts = Inr ps \<longrightarrow>
             ps = exchange_round P L k j parts)
       \<and> (\<forall>heap. (\<forall>r<P. heap (Merge_tmp k j r)) \<and> 2 * int L \<le> INT_MAX \<longrightarrow>
             network_round heap P L k j parts = Inr (exchange_round P L k j parts))"
proof -
  from assms(1-3) have ts: "t < s" by (simp add: power_strict_increasing_iff)
  from assms(2,4,5) have "s \<le> m" by (simp add: power_increasing_iff)
  with ts have tm: "t < m" by simp
  have lt: "rank XOR j < P"
    using assms(1,5,6) tm by (simp add: xor_pow2_less)
  have inv: "(rank XOR j) XOR j = rank"
    using assms(1) by (simp add: xor_pow2_cancel)
  have compl: "select_keep_low (rank XOR j) k j = (\<not> select_keep_low rank k j)"
    using assms(1,2) ts select_keep_low_partner [of t s rank] by simp
  let ?a = "parts ! rank" and ?b = "parts ! (rank XOR j)"
  have a: "sorted ?a" "length ?a = L" and b: "sorted ?b" "length ?b = L"
    using assms(6-8) lt by auto
  have r1: "exchange_round P L k j parts ! rank =
      (if select_keep_low rank k j then take L (sort (?a @ ?b)) else drop L (sort (?a @ ?b)))"
    using assms(6) a b by (simp add: exchange_round_nth merge_and_select_eq)
  have r2: "exchange_round P L k j parts ! (rank XOR j) =
      (if select_keep_low rank k j then drop L (sort (?a @ ?b)) else take L (sort (?a @ ?b)))"
    using lt a b inv compl by (simp add: exchange_round_nth merge_and_select_eq sort_append_commute [of ?b ?a])
  have "mset (take L (sort (?a @ ?b))) + mset (drop L (sort (?a @ ?b))) = mset ?a + mset ?b"
    by (metis append_take_drop_id mset_append mset_sort)
  then have ms: "mset (exchange_round P L k j parts ! rank)
           + mset (exchange_round P L k j parts ! (rank XOR j)) = mset ?a + mset ?b"
    unfolding r1 r2 by (simp add: add.commute)
  have c1: "\<forall>heap ps. network_round heap P L k j parts = Inr ps \<longrightarrow>
             ps = exchange_round P L k j parts"
    using network_round_Inr by blast
  have c2: "\<forall>heap. (\<forall>r<P. heap (Merge_tmp k j r)) \<and> 2 * int L \<le> INT_MAX \<longrightarrow>
             network_round heap P L k j parts = Inr (exchange_round P L k j parts)"
    using network_round_no_fault by blast
  from lt inv compl ms c1 c2 show ?thesis using assms(1) by (simp add: xor_pow2_neq)
qed

theorem exchange_pairing_witness:
  "(1::nat) = 2 ^ 0 \<and> (2::nat) = 2 ^ 1 \<and> (1::nat) < 2 \<and> (2::nat) \<le> 2 \<and> (2::nat) = 2 ^ 1
   \<and> (0::nat) < 2 \<and> length [[1, 3, 5, 8], [2, 4, 7, 9 :: int]] = 2
   \<and> sorted [1, 3, 5, 8 :: int] \<and> sorted [2, 4, 7, 9 :: int]
   \<and> (0 XOR 1) XOR 1 = (0::nat) \<and> (0::nat) XOR 1 < 2
   \<and> select_keep_low 0 2 1 \<and> \<not> select_keep_low 1 2 1
   \<and> exchange_round 2 4 2 1 [[1, 3, 5, 8], [2, 4, 7, 9]] = [[1, 2, 3, 4], [5, 7, 8, 9]]
   \<and> mset (exchange_round 2 4 2 1 [[1, 3, 5, 8], [2, 4, 7, 9]] ! 0)
        + mset (exchange_round 2 4 2 1 [[1, 3, 5, 8], [2, 4, 7, 9]] ! (0 XOR 1))
      = mset [1, 3, 5, 8] + mset [2, 4, 7, 9]
   \<and> 2 * int 4 \<le> INT_MAX
   \<and> network_round (\<lambda>a. True) 2 4 2 1 [[1, 3, 5, 8], [2, 4, 7, 9]]
        = Inr [[1, 2, 3, 4], [5, 7, 8, 9]]"
proof -
  have e: "exchange_round 2 4 2 1 [[1, 3, 5, 8], [2, 4, 7, 9]] = [[1, 2, 3, 4], [5, 7, 8, 9]]"
    by (simp add: exchange_round_def exchange_local_def select_keep_low_def numeral_2_eq_2
        merge_and_select_val_def merge_loop_val.simps copy_rest_val.simps)
  have k: "select_keep_low 0 2 1" "\<not> select_keep_low 1 2 1"
    by (simp_all add: select_keep_low_def)
  have b: "2 * int 4 \<le> INT_MAX" by (simp add: INT_MAX_def)
  show ?thesis
    using exchange_pairing [of 1 0 2 1 2 1 0 "[[1, 3, 5, 8], [2, 4, 7, 9]]" 4] e k b
    by simp
qed

subsection \<open>The partitions stay ascending\<close>

lemma those_map_Some:
  "(\<And>x. x \<in> set xs \<Longrightarrow> f x = Some (g x)) \<Longrightarrow> those (map f xs) = Some (map g xs)"
  by (induction xs) simp_all

lemma local_sort_all:
  assumes "int L \<le> INT_MAX"
  shows "those (map (\<lambda>local. bitonic_sort_recursive local 0 L True) parts)
           = Some (map (\<lambda>local. bitonic_sort_recursive_val local 0 L True) parts)"
proof (rule those_map_Some)
  fix local
  have "int 0 + int L \<le> INT_MAX" using assms by simp
  then show "bitonic_sort_recursive local 0 L True = Some (bitonic_sort_recursive_val local 0 L True)"
    by (rule bitonic_sort_recursive_no_overflow)
qed

text \<open>
  Claim C4. A round \<open>(k, j)\<close> in which process \<open>rank\<close> and its partner hold ascending
  partitions (of the length \<open>L\<close> that all partitions have) leaves process \<open>rank\<close> with an
  ascending partition of length \<open>L\<close>, whenever the round returns; it returns when \<open>malloc\<close>
  gives the process its buffer and \<open>2 * L\<close> fits an \<open>int\<close>. Hence in the run, for
  \<open>P = 2^m\<close> processes with partitions of length \<open>2^e\<close>: the local sort leaves ascending
  partitions, and so does every round that the network completes, up to the state in which
  the network stops; without a fault in the rounds these are all the rounds of the
  schedule.
\<close>

theorem partitions_stay_sorted:
  "(sorted (parts ! rank) \<and> sorted (parts ! (rank XOR j))
      \<and> length (parts ! rank) = L \<and> length (parts ! (rank XOR j)) = L \<longrightarrow>
      (\<forall>out. rank_round heap parts L k j rank = Inr out \<longrightarrow> sorted out \<and> length out = L)
    \<and> (heap (Merge_tmp k j rank) \<and> 2 * int L \<le> INT_MAX \<longrightarrow>
         (\<exists>out. rank_round heap parts L k j rank = Inr out)))
   \<and> (P = 2 ^ m \<and> int P \<le> INT_MAX \<and> int (2 ^ e) \<le> INT_MAX
      \<and> length parts0 = P \<and> (\<forall>p\<in>set parts0. length p = 2 ^ e) \<longrightarrow>
      (\<exists>sp r. those (map (\<lambda>local. bitonic_sort_recursive local 0 (2 ^ e) True) parts0) = Some sp
         \<and> parts_ok P (2 ^ e) sp
         \<and> exchange_network heap P (2 ^ e) sp = Some r
         \<and> parts_ok P (2 ^ e) (fst (net_state_of r))
         \<and> (\<forall>(k, j, ps)\<in>set (snd (net_state_of r)). parts_ok P (2 ^ e) ps)
         \<and> ((\<forall>k j r. heap (Merge_tmp k j r)) \<and> (m = 0 \<or> 2 * int (2 ^ e) \<le> INT_MAX) \<longrightarrow>
              map (\<lambda>(k, j, ps). (k, j)) (snd (net_state_of r)) = schedule_from 1 m)))"
proof (intro conjI impI)
  assume a: "sorted (parts ! rank) \<and> sorted (parts ! (rank XOR j))
      \<and> length (parts ! rank) = L \<and> length (parts ! (rank XOR j)) = L"
  then have v: "exchange_local parts L k j rank =
      (if select_keep_low rank k j then take L (sort (parts ! rank @ parts ! (rank XOR j)))
       else drop L (sort (parts ! rank @ parts ! (rank XOR j))))"
    by (simp add: exchange_local_def Let_def merge_and_select_eq)
  have s: "sorted (exchange_local parts L k j rank)" "length (exchange_local parts L k j rank) = L"
    unfolding v using a by (simp_all add: sorted_wrt_take sorted_wrt_drop)
  show "\<forall>out. rank_round heap parts L k j rank = Inr out \<longrightarrow> sorted out \<and> length out = L"
    using s by (auto simp: rank_round_cases split: if_splits)
  show "\<exists>out. rank_round heap parts L k j rank = Inr out"
    if "heap (Merge_tmp k j rank) \<and> 2 * int L \<le> INT_MAX"
    using that by (simp add: rank_round_cases)
next
  assume a: "P = 2 ^ m \<and> int P \<le> INT_MAX \<and> int (2 ^ e) \<le> INT_MAX
      \<and> length parts0 = P \<and> (\<forall>p\<in>set parts0. length p = 2 ^ e)"
  then have P: "P = 2 ^ m" and len: "length parts0 = P" "\<forall>p\<in>set parts0. length p = 2 ^ e"
    and Le: "int (2 ^ e) \<le> INT_MAX"
    by simp_all
  from a have "int (2 ^ m) \<le> INT_MAX" by blast
  then have "(2::int) ^ m \<le> INT_MAX" by simp
  then have m30: "m \<le> 30" by (rule pow2_int_le_INT_MAX)
  define sp where "sp = map (\<lambda>local. bitonic_sort_recursive_val local 0 (2 ^ e) True) parts0"
  have ls: "those (map (\<lambda>local. bitonic_sort_recursive local 0 (2 ^ e) True) parts0) = Some sp"
    unfolding sp_def using Le by (rule local_sort_all)
  have pk: "parts_ok P (2 ^ e) sp"
    unfolding sp_def using len by (rule local_sort_parts)
  from exchange_network_parts_ok [OF m30, of "2 ^ e" sp heap] pk obtain r where
    r: "exchange_network heap P (2 ^ e) sp = Some r"
      "parts_ok P (2 ^ e) (fst (net_state_of r))"
      "\<forall>e'\<in>set (snd (net_state_of r)). parts_ok P (2 ^ e) (snd (snd e'))"
    unfolding P by blast
  have hist: "\<forall>(k, j, ps)\<in>set (snd (net_state_of r)). parts_ok P (2 ^ e) ps"
    using r(3) by auto
  have sched: "map (\<lambda>(k, j, ps). (k, j)) (snd (net_state_of r)) = schedule_from 1 m"
    if h: "(\<forall>k j r. heap (Merge_tmp k j r)) \<and> (m = 0 \<or> 2 * int (2 ^ e) \<le> INT_MAX)"
  proof -
    from h have h1: "\<forall>k j r. heap (Merge_tmp k j r)" and h2: "m = 0 \<or> 2 * int (2 ^ e) \<le> INT_MAX"
      by simp_all
    from exchange_network_no_fault [OF m30 h1 h2, of sp] r(1)
    have "net_state_of r = run_rounds (2 ^ m) (2 ^ e) (schedule_from 1 m) (sp, [])"
      unfolding P by (auto simp: net_state_of_def split: if_splits)
    then show ?thesis by (simp add: log_run_rounds)
  qed
  from ls pk r(1,2) hist sched
  show "\<exists>sp r. those (map (\<lambda>local. bitonic_sort_recursive local 0 (2 ^ e) True) parts0) = Some sp
         \<and> parts_ok P (2 ^ e) sp
         \<and> exchange_network heap P (2 ^ e) sp = Some r
         \<and> parts_ok P (2 ^ e) (fst (net_state_of r))
         \<and> (\<forall>(k, j, ps)\<in>set (snd (net_state_of r)). parts_ok P (2 ^ e) ps)
         \<and> ((\<forall>k j r. heap (Merge_tmp k j r)) \<and> (m = 0 \<or> 2 * int (2 ^ e) \<le> INT_MAX) \<longrightarrow>
              map (\<lambda>(k, j, ps). (k, j)) (snd (net_state_of r)) = schedule_from 1 m)"
    by blast
qed

subsection \<open>The whole run\<close>

lemma exchange_events:
  "map (\<lambda>(k, j, ps). Exchange k j) hist
     = map (\<lambda>(k, j). Exchange k j) (map (\<lambda>(k, j, ps). (k, j)) hist)"
  by (induction hist) auto

lemma list_all_heap: "\<forall>a. heap a \<Longrightarrow> list_all (\<lambda>rank. heap (f rank)) ranks"
  by (simp add: list_all_iff)

lemma list_all_heap2:
  "\<forall>a. heap a \<Longrightarrow> list_all (\<lambda>rank. heap (f rank) \<and> heap (g rank)) ranks"
  by (simp add: list_all_iff)

text \<open>
  The run for \<open>0 < n \<le> 2^30\<close> on \<open>2^m\<close> processes when every allocation succeeds: it
  finishes with the sorted padded input when \<open>2^m \<le> 2^29\<close>, and for \<open>2^m = 2^30\<close> it
  runs all rounds and then meets the overflow of \<open>k <<= 1\<close>.
\<close>

lemma main_run_no_fault:
  assumes "0 < n" "n \<le> 2 ^ 30" "m \<le> 30" "\<forall>a. heap a"
  shows "\<exists>N. partition_sizer n (2 ^ m) = Some (N, N div 2 ^ m) \<and> n \<le> N \<and> 0 < N div 2 ^ m
           \<and> main_run (Some n) (2 ^ m) heap rnd
               = ([Print_banner n N (2 ^ m) (N div 2 ^ m), Alloc_global N,
                   Alloc_local (N div 2 ^ m), Scatter, Local_sort,
                   Alloc_exchange_buffers (N div 2 ^ m)]
                    @ map (\<lambda>(k, j). Exchange k j) (schedule_from 1 m)
                    @ (if m \<le> 29 then [Gather, Print_result True] else []),
                  if m \<le> 29
                  then Finished (sort (map rnd [0..<nat n] @ replicate (nat N - nat n) INT_MAX)) True
                  else Undefined_behaviour)"
proof -
  from partition_sizer_pow2 [OF assms(1,2,3)] obtain c where
    c: "n \<le> 2 ^ c" "c \<le> 30"
      "partition_sizer n (2 ^ m) = Some (2 ^ max c m, 2 ^ max c m div 2 ^ m)"
    by blast
  define M where "M = max c m"
  define N :: int where "N = 2 ^ M"
  define Lz :: int where "Lz = N div 2 ^ m"
  define L :: nat where "L = 2 ^ (M - m)"
  define P :: nat where "P = 2 ^ m"
  have mM: "m \<le> M" and M30: "M \<le> 30" using c(2) assms(3) by (simp_all add: M_def)
  have ps: "partition_sizer n (2 ^ m) = Some (N, Lz)"
    using c(3) by (simp add: N_def Lz_def M_def)
  have "(2::int) ^ c \<le> 2 ^ M" unfolding M_def by (intro power_increasing) auto
  with c(1) have nN: "n \<le> N" unfolding N_def by linarith
  have Lz: "Lz = 2 ^ (M - m)"
    unfolding Lz_def N_def using mM by (simp add: power_diff)
  have natP: "nat (2 ^ m) = P" by (simp add: P_def nat_power_eq)
  have natL: "nat Lz = L" by (simp add: Lz L_def nat_power_eq)
  have natN: "nat N = P * L"
    unfolding N_def P_def L_def using mM by (simp add: nat_power_eq power_add [symmetric])
  have Lpos: "\<not> Lz \<le> 0" by (simp add: Lz)
  have p2: "is_power_of_two (2 ^ m)" by (simp add: is_power_of_two_iff)
  have "(2::int) ^ (M - m) \<le> 2 ^ 30" using M30 by (intro power_increasing) auto
  then have Lmax: "int L \<le> INT_MAX" by (simp add: L_def INT_MAX_def)
  have L2: "m = 0 \<or> 2 * int L \<le> INT_MAX"
  proof (cases "m = 0")
    case False
    then have "Suc (M - m) \<le> 30" using M30 mM by simp
    then have "(2::int) ^ Suc (M - m) \<le> 2 ^ 30" by (intro power_increasing) auto
    then show ?thesis by (simp add: L_def INT_MAX_def)
  qed simp
  define g where "g = map rnd [0..<nat n] @ replicate (nat N - nat n) INT_MAX"
  define parts where "parts = scatter g P L"
  define sp where "sp = map (\<lambda>local. bitonic_sort_recursive_val local 0 L True) parts"
  define st where "st = run_rounds P L (schedule_from 1 m) (sp, [])"
  have leng: "length g = P * L" using nN assms(1) natN by (simp add: g_def)
  note sc = scatter_parts [OF leng]
  have pk: "parts_ok P L sp" and msp: "mset (concat sp) = mset (concat parts)"
    unfolding sp_def L_def
    using local_sort_parts [of parts P "M - m"] sc(1,2) by (simp_all add: parts_def L_def)
  have ls: "those (map (\<lambda>local. bitonic_sort_recursive local 0 L True) parts) = Some sp"
    unfolding sp_def using Lmax by (rule local_sort_all)
  have h: "\<forall>k j r. heap (Merge_tmp k j r)" using assms(4) by simp
  obtain final hist where sth: "st = (final, hist)" by (cases st)
  have net: "exchange_network heap P L sp =
      Some (if m \<le> 29 then Inr (final, hist) else Inl (Int_overflow, final, hist))"
    using exchange_network_no_fault [OF assms(3) h L2, of sp] sth
    by (simp add: st_def P_def)
  note rs = run_schedule_sorts [OF pk [unfolded P_def], folded P_def st_def, unfolded sth fst_conv snd_conv]
  have ev: "map (\<lambda>(k, j, ps). Exchange k j) hist = map (\<lambda>(k, j). Exchange k j) (schedule_from 1 m)"
    using rs(5) by (simp add: exchange_events)
  have out: "concat final = sort g"
    using rs(2,3) msp sc(3) by (intro sorted_eq_sort) (simp_all add: parts_def)
  then have "length (concat final) = P * L" using leng by simp
  then have "nat n \<le> length (concat final)" using nN natN by simp
  with rs(2) have ok: "verify_sorted (concat final) (nat n)" by (rule verify_sorted_sorted)
  have ha: "heap Global_arr" "list_all (\<lambda>rank. heap (Local_buf rank)) [0..<P]"
    "list_all (\<lambda>rank. heap (Recv_buf rank) \<and> heap (New_local rank)) [0..<P]"
    using assms(4) by (simp_all add: list_all_iff)
  have "main_run (Some n) (2 ^ m) heap rnd
      = ([Print_banner n N (2 ^ m) Lz, Alloc_global N, Alloc_local Lz, Scatter, Local_sort,
          Alloc_exchange_buffers Lz]
           @ map (\<lambda>(k, j). Exchange k j) (schedule_from 1 m)
           @ (if m \<le> 29 then [Gather, Print_result True] else []),
         if m \<le> 29 then Finished (sort g) True else Undefined_behaviour)"
    unfolding main_run_def Let_def
    using assms(1) p2 ps Lpos ok ha
    by (simp add: natP natL ls [unfolded parts_def g_def] net [unfolded parts_def g_def]
        ev out [symmetric])
  with ps nN Lpos show ?thesis unfolding g_def Lz_def by (intro exI [of _ N]) simp
qed

text \<open>The run with an absent or non-positive argument is the run for \<open>n = 1024\<close>.\<close>

lemma main_run_arg:
  "main_run arg P heap rnd =
     (usage arg @ fst (main_run (Some (effective_n arg)) P heap rnd),
      snd (main_run (Some (effective_n arg)) P heap rnd))"
proof -
  have n: "(if effective_n arg \<le> 0 then 1024 else effective_n arg) = effective_n arg"
    using effective_n_pos [of arg] by simp
  have e: "(let n0 = (case arg of None \<Rightarrow> 1024 | Some v \<Rightarrow> v) in if n0 \<le> 0 then 1024 else n0)
      = effective_n arg"
    by (simp add: effective_n_def)
  show ?thesis
    unfolding main_run_def Let_def option.case n usage_def e [unfolded Let_def]
    by (simp split: option.splits prod.splits sum.splits fault.splits)
qed

text \<open>
  A run that finishes, whatever \<open>heap\<close> is: the process count is a power of two up to
  \<open>2^29\<close>, the element count is at most \<open>2^30\<close>, the gathered array is the sorted
  padded input and the verifier accepts it.
\<close>

lemma main_run_finished:
  assumes "snd (main_run arg P heap rnd) = Finished out ok"
  shows "\<exists>m N Lz. P = 2 ^ m \<and> m \<le> 29 \<and> effective_n arg \<le> 2 ^ 30
           \<and> partition_sizer (effective_n arg) P = Some (N, Lz) \<and> effective_n arg \<le> N \<and> ok
           \<and> out = sort (map rnd [0..<nat (effective_n arg)]
                          @ replicate (nat N - nat (effective_n arg)) INT_MAX)"
proof -
  define n where "n = effective_n arg"
  have npos: "0 < n" unfolding n_def by (rule effective_n_pos)
  have fin: "snd (main_run (Some n) P heap rnd) = Finished out ok"
    using assms unfolding n_def by (subst (asm) main_run_arg) simp
  have p2: "is_power_of_two P"
    by (rule ccontr) (use fin in \<open>simp add: main_run_def\<close>)
  then obtain m :: nat where m: "P = 2 ^ m" by (auto simp: is_power_of_two_iff)
  have Ppos: "0 < P" using m by simp
  obtain N Lz where ps: "partition_sizer n P = Some (N, Lz)"
    using fin p2 npos by (cases "partition_sizer n P") (auto simp: main_run_def)
  from partition_sizer_range [OF ps npos Ppos] have n30: "n \<le> 2 ^ 30" and "P \<le> INT_MAX"
    by simp_all
  then have m30: "m \<le> 30" unfolding m by (intro pow2_int_le_INT_MAX)
  from partition_sizer_pow2 [OF npos n30 m30] ps obtain c where
    c: "n \<le> 2 ^ c" "c \<le> 30" "N = 2 ^ max c m" "Lz = 2 ^ max c m div 2 ^ m"
    unfolding m by auto
  define M where "M = max c m"
  define L :: nat where "L = 2 ^ (M - m)"
  define Q :: nat where "Q = 2 ^ m"
  have mM: "m \<le> M" and M30: "M \<le> 30" using c(2) m30 by (simp_all add: M_def)
  have N: "N = 2 ^ M" using c(3) by (simp add: M_def)
  have "(2::int) ^ c \<le> 2 ^ M" unfolding M_def by (intro power_increasing) auto
  with c(1) have nN: "n \<le> N" unfolding N by linarith
  have Lz: "Lz = 2 ^ (M - m)"
    unfolding c(4) M_def [symmetric] using mM by (simp add: power_diff)
  have natP: "nat P = Q" by (simp add: Q_def m nat_power_eq)
  have natL: "nat Lz = L" by (simp add: Lz L_def nat_power_eq)
  have natN: "nat N = Q * L"
    unfolding N Q_def L_def using mM by (simp add: nat_power_eq power_add [symmetric])
  have Lpos: "\<not> Lz \<le> 0" by (simp add: Lz)
  have "(2::int) ^ (M - m) \<le> 2 ^ 30" using M30 by (intro power_increasing) auto
  then have Lmax: "int L \<le> INT_MAX" by (simp add: L_def INT_MAX_def)
  define g where "g = map rnd [0..<nat n] @ replicate (nat N - nat n) INT_MAX"
  define parts where "parts = scatter g Q L"
  define sp where "sp = map (\<lambda>local. bitonic_sort_recursive_val local 0 L True) parts"
  have leng: "length g = Q * L" using nN npos natN by (simp add: g_def)
  note sc = scatter_parts [OF leng]
  have pk: "parts_ok Q L sp" and msp: "mset (concat sp) = mset (concat parts)"
    unfolding sp_def L_def
    using local_sort_parts [of parts Q "M - m"] sc(1,2) by (simp_all add: parts_def L_def)
  have ls: "those (map (\<lambda>local. bitonic_sort_recursive local 0 L True) parts) = Some sp"
    unfolding sp_def using Lmax by (rule local_sort_all)
  from fin obtain final hist where
    net: "exchange_network heap Q L sp = Some (Inr (final, hist))"
    and out: "out = concat final" and ok: "ok = verify_sorted (concat final) (nat n)"
    unfolding main_run_def Let_def
    using npos p2 ps Lpos
    by (auto simp: natP natL ls [unfolded parts_def g_def] parts_def g_def
        split: if_splits option.splits sum.splits prod.splits fault.splits)
  from exchange_network_prefix [OF m30, of heap L sp] net obtain rs rs' where
    r: "schedule_from 1 m = rs @ rs'"
      "net_state_of (Inr (final, hist) :: fault \<times> net_state + net_state)
          = run_rounds (2 ^ m) L rs (sp, [])"
      "rs' = [] \<and> m \<le> 29"
    unfolding Q_def by auto
  then have st: "run_rounds (2 ^ m) L (schedule_from 1 m) (sp, []) = (final, hist)"
    by (simp add: net_state_of_def)
  note rs = run_schedule_sorts [OF pk [unfolded Q_def], unfolded st fst_conv snd_conv]
  have outg: "concat final = sort g"
    using rs(2,3) msp sc(3) by (intro sorted_eq_sort) (simp_all add: parts_def)
  then have "length (concat final) = Q * L" using leng by simp
  then have "nat n \<le> length (concat final)" using nN natN by simp
  with rs(2) have "verify_sorted (concat final) (nat n)" by (rule verify_sorted_sorted)
  with ok have "ok" by simp
  with m r(3) n30 ps nN out outg show ?thesis
    unfolding n_def [symmetric] g_def by blast
qed

lemma main_run_sizer_overflow:
  assumes "is_power_of_two P" "partition_sizer (effective_n arg) P = None"
  shows "main_run arg P heap rnd = (usage arg, Undefined_behaviour)"
proof -
  have "main_run (Some (effective_n arg)) P heap rnd = ([], Undefined_behaviour)"
    using assms effective_n_pos [of arg] by (simp add: main_run_def)
  then show ?thesis by (subst main_run_arg) simp
qed

lemma main_run_not_power_of_two:
  assumes "\<not> is_power_of_two P"
  shows "main_run arg P heap rnd = (usage arg @ [Error_not_power_of_two P], Aborted)"
  using assms by (simp add: main_run_def usage_def)

text \<open>
  Past the test of the process count, with the sizes computed, the run prints its banner
  and goes on; it never prints the error message of the test.
\<close>

lemma main_run_banner:
  assumes "is_power_of_two P" "partition_sizer (effective_n arg) P = Some (N, Lz)"
  shows "0 < Lz"
    and "\<exists>rest. fst (main_run arg P heap rnd)
           = usage arg @ Print_banner (effective_n arg) N P Lz # rest"
proof -
  have Ppos: "0 < P" using assms(1) by (simp add: is_power_of_two_def)
  show Lpos: "0 < Lz" using assms(2) Ppos by (rule partition_sizer_local_size)
  have "\<exists>rest. fst (main_run (Some (effective_n arg)) P heap rnd)
           = Print_banner (effective_n arg) N P Lz # rest"
    unfolding main_run_def Let_def
    using assms Lpos effective_n_pos [of arg]
    by (simp split: option.splits sum.splits prod.splits fault.splits)
  then show "\<exists>rest. fst (main_run arg P heap rnd)
           = usage arg @ Print_banner (effective_n arg) N P Lz # rest"
    by (subst main_run_arg) simp
qed

lemma main_run_no_error_message:
  assumes "is_power_of_two P"
  shows "Error_not_power_of_two P \<notin> set (fst (main_run arg P heap rnd))"
proof -
  have "Error_not_power_of_two P \<notin> set (fst (main_run (Some (effective_n arg)) P heap rnd))"
    unfolding main_run_def Let_def
    using assms by (auto split: option.splits sum.splits prod.splits fault.splits)
  then show ?thesis by (subst main_run_arg) (simp add: usage_def split: option.splits)
qed

subsection \<open>The claims about the whole run\<close>

lemma exchanges_append [simp]: "exchanges (xs @ ys) = exchanges xs @ exchanges ys"
  by (simp add: exchanges_def List.map_filter_def)

lemma exchanges_Cons [simp]:
  "exchanges (e # es) = (case exchange_of e of None \<Rightarrow> exchanges es | Some r \<Rightarrow> r # exchanges es)"
  by (simp add: exchanges_def List.map_filter_simps split: option.splits)

lemma exchanges_Nil [simp]: "exchanges [] = []"
  by (simp add: exchanges_def List.map_filter_simps)

lemma exchanges_map_Exchange [simp]: "exchanges (map (\<lambda>(k, j). Exchange k j) rs) = rs"
  by (induction rs) auto

lemma exchanges_usage [simp]: "exchanges (usage arg) = []"
  by (simp add: usage_def split: option.splits)

text \<open>
  Claim C1, amended. For every element count \<open>n\<close> with \<open>0 < n \<le> 2^30\<close> and every process
  count \<open>P = 2^m \<le> 2^29\<close> (also when \<open>P > n\<close>), when every allocation succeeds: the run
  pads the \<open>n\<close> input values, scatters and sorts them locally, runs the exchange network
  and gathers the \<open>P\<close> partitions in rank order; the run finishes, the verifier answers
  "sorted", the first \<open>n\<close> entries of the gathered sequence are non-decreasing and they
  are, as a multiset, the \<open>n\<close> input values. The network alone, on any \<open>P\<close> ascending
  partitions of a common length \<open>L\<close> with \<open>2 * L \<le> INT_MAX\<close>, returns partitions whose
  concatenation in rank order is ascending and holds the same values.
\<close>

theorem distributed_sort_sorts:
  assumes "0 < n" and "n \<le> 2 ^ 30" and "P = 2 ^ m" and "m \<le> 29"
    and "\<forall>i<nat n. rnd i \<le> INT_MAX" and "\<forall>a. heap a"
  shows "(\<exists>ev out. main_run (Some n) P heap rnd = (ev, Finished out True)
            \<and> sorted (take (nat n) out)
            \<and> mset (take (nat n) out) = mset (map rnd [0..<nat n]))
       \<and> (\<forall>L parts. parts_ok (nat P) L parts \<and> (m = 0 \<or> 2 * int L \<le> INT_MAX) \<longrightarrow>
            (\<exists>final hist. exchange_network heap (nat P) L parts = Some (Inr (final, hist))
               \<and> sorted (concat final) \<and> mset (concat final) = mset (concat parts)))"
proof
  let ?input = "map rnd [0..<nat n]"
  have m30: "m \<le> 30" using assms(4) by simp
  from main_run_no_fault [OF assms(1,2) m30 assms(6), of rnd] assms(4) obtain ev N where
    r: "n \<le> N" "main_run (Some n) (2 ^ m) heap rnd
        = (ev, Finished (sort (?input @ replicate (nat N - nat n) INT_MAX)) True)"
    by auto
  have "\<forall>v\<in>set ?input. v \<le> INT_MAX" using assms(5) by auto
  then have "sort (?input @ replicate (nat N - nat n) INT_MAX)
      = sort ?input @ replicate (nat N - nat n) INT_MAX"
    by (rule sort_padded)
  then have "take (nat n) (sort (?input @ replicate (nat N - nat n) INT_MAX)) = sort ?input"
    by simp
  then show "\<exists>ev out. main_run (Some n) P heap rnd = (ev, Finished out True)
            \<and> sorted (take (nat n) out)
            \<and> mset (take (nat n) out) = mset (map rnd [0..<nat n])"
    using r(2) assms(3) by simp
next
  have P: "nat P = 2 ^ m" using assms(3) by (simp add: nat_power_eq)
  have h: "\<forall>k j r. heap (Merge_tmp k j r)" using assms(6) by simp
  show "\<forall>L parts. parts_ok (nat P) L parts \<and> (m = 0 \<or> 2 * int L \<le> INT_MAX) \<longrightarrow>
            (\<exists>final hist. exchange_network heap (nat P) L parts = Some (Inr (final, hist))
               \<and> sorted (concat final) \<and> mset (concat final) = mset (concat parts))"
    unfolding P using exchange_network_sorts [OF assms(4) _ h] by blast
qed

theorem distributed_sort_sorts_witness:
  "(0::int) < 8 \<and> (8::int) \<le> 2 ^ 30 \<and> (2::int) = 2 ^ 1 \<and> (1::nat) \<le> 29
   \<and> snd (main_run (Some 8) 2 (\<lambda>a. True) (\<lambda>i. [5, 3, 8, 1, 9, 2, 7, 4] ! i))
        = Finished [1, 2, 3, 4, 5, 7, 8, 9] True
   \<and> (\<exists>ev out. main_run (Some 8) 2 (\<lambda>a. True) (\<lambda>i. [5, 3, 8, 1, 9, 2, 7, 4] ! i)
           = (ev, Finished out True)
         \<and> sorted (take (nat 8) out)
         \<and> mset (take (nat 8) out) = mset (map (\<lambda>i. [5, 3, 8, 1, 9, 2, 7, 4] ! i) [0..<nat 8]))
   \<and> parts_ok (nat 2) 2 [[1, 4], [2, 3]] \<and> 2 * int 2 \<le> INT_MAX
   \<and> exchange_network (\<lambda>a. True) (nat 2) 2 [[1, 4], [2, 3]]
       = Some (Inr ([[1, 2], [3, 4]], [(2, 1, [[1, 2], [3, 4]])]))"
proof -
  have e: "snd (main_run (Some 8) 2 (\<lambda>a. True) (\<lambda>i. [5, 3, 8, 1, 9, 2, 7, 4] ! i))
        = Finished [1, 2, 3, 4, 5, 7, 8, 9] True"
    by code_simp
  have b: "\<forall>i<nat 8. [5, 3, 8, 1, 9, 2, 7, 4 :: int] ! i \<le> INT_MAX"
    by (simp add: INT_MAX_def nat_numeral All_less_Suc numeral_eq_Suc)
  have p: "parts_ok (nat 2) 2 [[1, 4], [2, 3]]" "2 * int 2 \<le> INT_MAX"
    by (simp_all add: parts_ok_def INT_MAX_def)
  have x: "exchange_network (\<lambda>a. True) (nat 2) 2 [[1, 4], [2, 3]]
       = Some (Inr ([[1, 2], [3, 4]], [(2, 1, [[1, 2], [3, 4]])]))"
    by code_simp
  from distributed_sort_sorts [of 8 2 1 "\<lambda>i. [5, 3, 8, 1, 9, 2, 7, 4] ! i" "\<lambda>a. True", OF _ _ _ _ b]
  have "\<exists>ev out. main_run (Some 8) 2 (\<lambda>a. True) (\<lambda>i. [5, 3, 8, 1, 9, 2, 7, 4] ! i)
           = (ev, Finished out True)
         \<and> sorted (take (nat 8) out)
         \<and> mset (take (nat 8) out) = mset (map (\<lambda>i. [5, 3, 8, 1, 9, 2, 7, 4] ! i) [0..<nat 8])"
    by simp
  with e p x show ?thesis by simp
qed

text \<open>
  The claim as stated, for every \<open>n > 0\<close> and every power of two \<open>P \<le> n\<close>, fails where an
  \<open>int\<close> overflows, also when every allocation succeeds: for \<open>n = 2^30 + 1\<close> in
  \<open>next_power_of_two\<close>, and for \<open>P = n = 2^30\<close> in the header of the network's outer
  loop. The run has no defined result there.
\<close>

theorem distributed_sort_overflow:
  "snd (main_run (Some 1073741825) 2 (\<lambda>a. True) (\<lambda>i. 0)) = Undefined_behaviour
   \<and> snd (main_run (Some 1073741824) 1073741824 (\<lambda>a. True) (\<lambda>i. 0)) = Undefined_behaviour"
proof
  have p: "is_power_of_two 2" by (simp add: is_power_of_two_def)
  have n: "effective_n (Some 1073741825) = 1073741825" by (simp add: effective_n_def)
  have "partition_sizer 1073741825 2 = None"
    by (simp add: partition_sizer_def next_power_of_two_def np2_loop.simps INT_MAX_def)
  then have "partition_sizer (effective_n (Some 1073741825)) 2 = None" unfolding n .
  from main_run_sizer_overflow [OF p this]
  show "snd (main_run (Some 1073741825) 2 (\<lambda>a. True) (\<lambda>i. 0)) = Undefined_behaviour"
    by simp
next
  have e: "(1073741824::int) = 2 ^ 30" by simp
  have "\<exists>ev. main_run (Some (2 ^ 30)) (2 ^ 30) (\<lambda>a. True) (\<lambda>i. 0) = (ev, Undefined_behaviour)"
    using main_run_no_fault [of "2 ^ 30" 30 "\<lambda>a. True" "\<lambda>i. 0"] by auto
  then show "snd (main_run (Some 1073741824) 1073741824 (\<lambda>a. True) (\<lambda>i. 0)) = Undefined_behaviour"
    unfolding e by auto
qed



text \<open>
  Claim C6. If the process count \<open>P\<close> is not a power of two, the test \<open>is_power_of_two\<close>
  fails and the run ends in \<open>MPI_Abort\<close> having done nothing but print the error message
  (after the usage line, when there is no argument): nothing is allocated, scattered,
  sorted, exchanged, gathered or reported. For every power of two \<open>P\<close> the test passes
  and the run goes on: it does not print the message; it computes the sizes (or meets
  the overflow of a size, and does nothing more), finds \<open>local_size\<close> positive, prints
  its banner and goes on to the allocations; and when every allocation succeeds, for
  \<open>n \<le> 2^30\<close> and \<open>P \<le> 2^29\<close>, it runs to its end: scatter, local sort, the rounds of the
  network, gather, and the verifier's answer "sorted".
\<close>

theorem not_power_of_two_aborts:
  "(\<not> (\<exists>e::nat. P = 2 ^ e) \<longrightarrow>
      \<not> is_power_of_two P
      \<and> main_run arg P heap rnd = (usage arg @ [Error_not_power_of_two P], Aborted))
   \<and> ((\<exists>e::nat. P = 2 ^ e) \<longrightarrow>
      is_power_of_two P
      \<and> Error_not_power_of_two P \<notin> set (fst (main_run arg P heap rnd))
      \<and> (partition_sizer (effective_n arg) P = None \<longrightarrow>
           main_run arg P heap rnd = (usage arg, Undefined_behaviour))
      \<and> (\<forall>N L. partition_sizer (effective_n arg) P = Some (N, L) \<longrightarrow>
           0 < L
           \<and> (\<exists>rest. fst (main_run arg P heap rnd)
                 = usage arg @ Print_banner (effective_n arg) N P L # rest))
      \<and> ((\<forall>a. heap a) \<and> effective_n arg \<le> 2 ^ 30 \<and> P \<le> 2 ^ 29 \<longrightarrow>
           (\<exists>N rounds out. main_run arg P heap rnd
               = (usage arg
                    @ [Print_banner (effective_n arg) N P (N div P), Alloc_global N,
                       Alloc_local (N div P), Scatter, Local_sort,
                       Alloc_exchange_buffers (N div P)]
                    @ map (\<lambda>(k, j). Exchange k j) rounds
                    @ [Gather, Print_result True],
                  Finished out True))))"
proof (intro conjI impI allI)
  assume "\<not> (\<exists>e::nat. P = 2 ^ e)"
  then show np: "\<not> is_power_of_two P" by (simp add: is_power_of_two_iff)
  then show "main_run arg P heap rnd = (usage arg @ [Error_not_power_of_two P], Aborted)"
    by (rule main_run_not_power_of_two)
next
  assume "\<exists>e::nat. P = 2 ^ e"
  then show "is_power_of_two P" by (simp add: is_power_of_two_iff)
next
  assume "\<exists>e::nat. P = 2 ^ e"
  then have "is_power_of_two P" by (simp add: is_power_of_two_iff)
  then show "Error_not_power_of_two P \<notin> set (fst (main_run arg P heap rnd))"
    by (rule main_run_no_error_message)
next
  assume "\<exists>e::nat. P = 2 ^ e" and "partition_sizer (effective_n arg) P = None"
  then show "main_run arg P heap rnd = (usage arg, Undefined_behaviour)"
    by (intro main_run_sizer_overflow) (simp_all add: is_power_of_two_iff)
next
  fix N L
  assume "\<exists>e::nat. P = 2 ^ e" and ps: "partition_sizer (effective_n arg) P = Some (N, L)"
  then have p: "is_power_of_two P" by (simp add: is_power_of_two_iff)
  show "0 < L" using p ps by (rule main_run_banner)
next
  fix N L
  assume "\<exists>e::nat. P = 2 ^ e" and ps: "partition_sizer (effective_n arg) P = Some (N, L)"
  then have p: "is_power_of_two P" by (simp add: is_power_of_two_iff)
  show "\<exists>rest. fst (main_run arg P heap rnd)
                 = usage arg @ Print_banner (effective_n arg) N P L # rest"
    using p ps by (rule main_run_banner)
next
  assume p: "\<exists>e::nat. P = 2 ^ e"
    and a: "(\<forall>a. heap a) \<and> effective_n arg \<le> 2 ^ 30 \<and> P \<le> 2 ^ 29"
  from p obtain m :: nat where m: "P = 2 ^ m" by blast
  have m29: "m \<le> 29"
  proof (rule ccontr)
    assume "\<not> m \<le> 29"
    then have "30 \<le> m" by simp
    then have "(2::int) ^ 30 \<le> 2 ^ m" by (intro power_increasing) simp_all
    with a m show False by simp
  qed
  then have m30: "m \<le> 30" by simp
  from a have h: "\<forall>a. heap a" and n30: "effective_n arg \<le> 2 ^ 30" by simp_all
  from main_run_no_fault [OF effective_n_pos n30 m30 h, of rnd] m29 obtain N where
    "main_run (Some (effective_n arg)) (2 ^ m) heap rnd
       = ([Print_banner (effective_n arg) N (2 ^ m) (N div 2 ^ m), Alloc_global N,
           Alloc_local (N div 2 ^ m), Scatter, Local_sort,
           Alloc_exchange_buffers (N div 2 ^ m)]
            @ map (\<lambda>(k, j). Exchange k j) (schedule_from 1 m)
            @ [Gather, Print_result True],
          Finished (sort (map rnd [0..<nat (effective_n arg)]
                            @ replicate (nat N - nat (effective_n arg)) INT_MAX)) True)"
    by auto
  then have "main_run arg P heap rnd
       = (usage arg
            @ [Print_banner (effective_n arg) N P (N div P), Alloc_global N,
               Alloc_local (N div P), Scatter, Local_sort, Alloc_exchange_buffers (N div P)]
            @ map (\<lambda>(k, j). Exchange k j) (schedule_from 1 m)
            @ [Gather, Print_result True],
          Finished (sort (map rnd [0..<nat (effective_n arg)]
                            @ replicate (nat N - nat (effective_n arg)) INT_MAX)) True)"
    unfolding m by (subst main_run_arg) simp
  then show "\<exists>N rounds out. main_run arg P heap rnd
               = (usage arg
                    @ [Print_banner (effective_n arg) N P (N div P), Alloc_global N,
                       Alloc_local (N div P), Scatter, Local_sort,
                       Alloc_exchange_buffers (N div P)]
                    @ map (\<lambda>(k, j). Exchange k j) rounds
                    @ [Gather, Print_result True],
                  Finished out True)"
    by blast
qed

theorem not_power_of_two_aborts_witness:
  "\<not> (\<exists>e::nat. (3::int) = 2 ^ e)
   \<and> \<not> is_power_of_two 3
   \<and> main_run (Some 8) 3 (\<lambda>a. True) (\<lambda>i. 0) = ([Error_not_power_of_two 3], Aborted)
   \<and> main_run None 3 (\<lambda>a. True) (\<lambda>i. 0) = ([Print_usage, Error_not_power_of_two 3], Aborted)
   \<and> (\<exists>e::nat. (2::int) = 2 ^ e)
   \<and> is_power_of_two 2
   \<and> partition_sizer (effective_n (Some 8)) 2 = Some (8, 4)
   \<and> effective_n (Some 8) \<le> 2 ^ 30 \<and> (2::int) \<le> 2 ^ 29
   \<and> main_run (Some 8) 2 (\<lambda>a. True) (\<lambda>i. 0)
       = ([Print_banner 8 8 2 4, Alloc_global 8, Alloc_local 4, Scatter, Local_sort,
           Alloc_exchange_buffers 4, Exchange 2 1, Gather, Print_result True],
          Finished [0, 0, 0, 0, 0, 0, 0, 0] True)
   \<and> main_run (Some 8) 2 (\<lambda>a. a \<noteq> Global_arr) (\<lambda>i. 0)
       = ([Print_banner 8 8 2 4, Perror ''malloc global_arr''], Aborted)"
proof -
  have n3: "\<not> (\<exists>e::nat. (3::int) = 2 ^ e)"
    using is_power_of_two_iff [of 3] by (simp add: is_power_of_two_def)
  have p2: "\<exists>e::nat. (2::int) = 2 ^ e" by (rule exI [of _ 1]) simp
  have ps: "partition_sizer (effective_n (Some 8)) 2 = Some (8, 4)"
    by (simp add: effective_n_def partition_sizer_def next_power_of_two_def np2_loop.simps
        pad_loop.simps INT_MAX_def)
  have n: "effective_n (Some 8) \<le> 2 ^ 30" by (simp add: effective_n_def)
  have r: "main_run (Some 8) 2 (\<lambda>a. True) (\<lambda>i. 0)
       = ([Print_banner 8 8 2 4, Alloc_global 8, Alloc_local 4, Scatter, Local_sort,
           Alloc_exchange_buffers 4, Exchange 2 1, Gather, Print_result True],
          Finished [0, 0, 0, 0, 0, 0, 0, 0] True)"
    by code_simp
  have f: "main_run (Some 8) 2 (\<lambda>a. a \<noteq> Global_arr) (\<lambda>i. 0)
       = ([Print_banner 8 8 2 4, Perror ''malloc global_arr''], Aborted)"
    by code_simp
  show ?thesis
    using not_power_of_two_aborts [of 3 "Some 8" "\<lambda>a. True" "\<lambda>i. 0"]
      not_power_of_two_aborts [of 3 None "\<lambda>a. True" "\<lambda>i. 0"]
      not_power_of_two_aborts [of 2 "Some 8" "\<lambda>a. True" "\<lambda>i. 0"] n3 p2 ps n r f
    by (simp add: usage_def)
qed

text \<open>
  Claim C7. Whenever the run finishes (the network completes and the partitions are
  gathered) on \<open>n\<close> input values that are all strictly less than the sentinel \<open>INT_MAX\<close>, the
  gathered sequence has length \<open>totalSize\<close>, none of its first \<open>n\<close> entries is the sentinel,
  and every entry at an index from \<open>n\<close> up to \<open>totalSize\<close> is the sentinel: the
  \<open>totalSize - n\<close> padding values are exactly the tail. (Here \<open>n\<close> is the count \<open>main\<close> works
  with; the run does finish for \<open>n \<le> 2^30\<close> and a power of two \<open>P \<le> 2^29\<close> when every
  allocation succeeds.)
\<close>

theorem sentinels_at_tail:
  "(snd (main_run arg P heap rnd) = Finished out ok
      \<and> (\<forall>i<nat (effective_n arg). rnd i < INT_MAX) \<longrightarrow>
      (\<exists>N Lz. partition_sizer (effective_n arg) P = Some (N, Lz)
         \<and> length out = nat N
         \<and> (\<forall>i<nat (effective_n arg). out ! i < INT_MAX)
         \<and> (\<forall>i. nat (effective_n arg) \<le> i \<and> i < nat N \<longrightarrow> out ! i = INT_MAX)))
   \<and> ((\<forall>a. heap a) \<and> effective_n arg \<le> 2 ^ 30 \<and> (\<exists>m\<le>29. P = 2 ^ m) \<longrightarrow>
      (\<exists>out'. snd (main_run arg P heap rnd) = Finished out' True))"
proof (intro conjI impI)
  let ?n = "effective_n arg"
  let ?input = "map rnd [0..<nat ?n]"
  assume a: "snd (main_run arg P heap rnd) = Finished out ok \<and> (\<forall>i<nat ?n. rnd i < INT_MAX)"
  from main_run_finished [of arg P heap rnd out ok] a obtain N Lz where
    r: "partition_sizer ?n P = Some (N, Lz)" "?n \<le> N"
      "out = sort (?input @ replicate (nat N - nat ?n) INT_MAX)"
    by blast
  have lt: "\<forall>v\<in>set ?input. v < INT_MAX" using a by auto
  then have "\<forall>v\<in>set ?input. v \<le> INT_MAX" by auto
  then have out: "out = sort ?input @ replicate (nat N - nat ?n) INT_MAX"
    unfolding r(3) by (rule sort_padded)
  have len: "length out = nat N" using r(2) effective_n_pos [of arg] by (simp add: out)
  have first: "out ! i < INT_MAX" if "i < nat ?n" for i
  proof -
    have eq: "out ! i = sort ?input ! i" using that by (simp add: out nth_append)
    have "sort ?input ! i \<in> set (sort ?input)" using that by (intro nth_mem) simp
    then have "sort ?input ! i \<in> set ?input" by (simp only: set_sort)
    from bspec [OF lt this] show ?thesis unfolding eq .
  qed
  have tail: "out ! i = INT_MAX" if "nat ?n \<le> i" "i < nat N" for i
    using that by (simp add: out nth_append)
  from r(1) len first tail
  show "\<exists>N Lz. partition_sizer ?n P = Some (N, Lz)
         \<and> length out = nat N
         \<and> (\<forall>i<nat ?n. out ! i < INT_MAX)
         \<and> (\<forall>i. nat ?n \<le> i \<and> i < nat N \<longrightarrow> out ! i = INT_MAX)"
    by blast
next
  let ?n = "effective_n arg"
  assume b: "(\<forall>a. heap a) \<and> ?n \<le> 2 ^ 30 \<and> (\<exists>m\<le>29. P = 2 ^ m)"
  then obtain m where m: "m \<le> 29" "P = 2 ^ m" by blast
  from b have n: "?n \<le> 2 ^ 30" and h: "\<forall>a. heap a" by simp_all
  have m30: "m \<le> 30" using m(1) by simp
  from main_run_no_fault [OF effective_n_pos n m30 h, of rnd] m(1)
  have "\<exists>out'. snd (main_run (Some ?n) (2 ^ m) heap rnd) = Finished out' True"
    by auto
  then show "\<exists>out'. snd (main_run arg P heap rnd) = Finished out' True"
    unfolding m(2) by (subst main_run_arg) simp
qed

theorem sentinels_at_tail_witness:
  "snd (main_run (Some 5) 4 (\<lambda>a. True) (\<lambda>i. [5, 3, 8, 1, 9, 2, 7, 4] ! i))
     = Finished [1, 3, 5, 8, 9, 2147483647, 2147483647, 2147483647] True
   \<and> partition_sizer (effective_n (Some 5)) 4 = Some (8, 2)
   \<and> effective_n (Some 5) = 5
   \<and> length [1, 3, 5, 8, 9, 2147483647, 2147483647, 2147483647 :: int] = nat 8
   \<and> list_all (\<lambda>v. v < INT_MAX) (take 5 [1, 3, 5, 8, 9, 2147483647, 2147483647, 2147483647])
   \<and> drop 5 [1, 3, 5, 8, 9, 2147483647, 2147483647, 2147483647] = replicate 3 INT_MAX
   \<and> (\<exists>N Lz. partition_sizer (effective_n (Some 5)) 4 = Some (N, Lz)
         \<and> length [1, 3, 5, 8, 9, 2147483647, 2147483647, 2147483647 :: int] = nat N
         \<and> (\<forall>i<nat (effective_n (Some 5)).
               [1, 3, 5, 8, 9, 2147483647, 2147483647, 2147483647] ! i < INT_MAX)
         \<and> (\<forall>i. nat (effective_n (Some 5)) \<le> i \<and> i < nat N \<longrightarrow>
               [1, 3, 5, 8, 9, 2147483647, 2147483647, 2147483647] ! i = INT_MAX))"
proof -
  let ?rnd = "\<lambda>i. [5, 3, 8, 1, 9, 2, 7, 4 :: int] ! i"
  have e: "snd (main_run (Some 5) 4 (\<lambda>a. True) ?rnd)
     = Finished [1, 3, 5, 8, 9, 2147483647, 2147483647, 2147483647] True"
    by code_simp
  have n: "effective_n (Some 5) = 5" by (simp add: effective_n_def)
  have s: "partition_sizer (effective_n (Some 5)) 4 = Some (8, 2)"
    unfolding n
    by (simp add: partition_sizer_def next_power_of_two_def np2_loop.simps pad_loop.simps INT_MAX_def)
  have b: "\<forall>i<nat (effective_n (Some 5)). ?rnd i < INT_MAX"
    unfolding n by (simp add: INT_MAX_def nat_numeral All_less_Suc numeral_eq_Suc)
  have c: "list_all (\<lambda>v. v < INT_MAX) (take 5 [1, 3, 5, 8, 9, 2147483647, 2147483647, 2147483647])"
    "drop 5 [1, 3, 5, 8, 9, 2147483647, 2147483647, 2147483647] = replicate 3 INT_MAX"
    by (simp_all add: INT_MAX_def numeral_eq_Suc)
  from sentinels_at_tail [of "Some 5" 4 "\<lambda>a. True" ?rnd
      "[1, 3, 5, 8, 9, 2147483647, 2147483647, 2147483647]" True] e b
  have "\<exists>N Lz. partition_sizer (effective_n (Some 5)) 4 = Some (N, Lz)
         \<and> length [1, 3, 5, 8, 9, 2147483647, 2147483647, 2147483647 :: int] = nat N
         \<and> (\<forall>i<nat (effective_n (Some 5)).
               [1, 3, 5, 8, 9, 2147483647, 2147483647, 2147483647] ! i < INT_MAX)
         \<and> (\<forall>i. nat (effective_n (Some 5)) \<le> i \<and> i < nat N \<longrightarrow>
               [1, 3, 5, 8, 9, 2147483647, 2147483647, 2147483647] ! i = INT_MAX)"
    by blast
  with e s n c show ?thesis by simp
qed

theorem partitions_stay_sorted_witness:
  "sorted [1, 3 :: int] \<and> sorted [0, 2 :: int]
   \<and> ((0::nat) XOR 1) = 1
   \<and> 2 * int 2 \<le> INT_MAX
   \<and> rank_round (\<lambda>a. True) [[1, 3], [0, 2]] 2 2 1 0 = Inr [0, 1]
   \<and> rank_round (\<lambda>a. True) [[1, 3], [0, 2]] 2 2 1 1 = Inr [2, 3]
   \<and> sorted [0, 1 :: int] \<and> sorted [2, 3 :: int]
   \<and> (2::nat) = 2 ^ 1 \<and> int 2 \<le> INT_MAX \<and> int (2 ^ 1) \<le> INT_MAX
   \<and> those (map (\<lambda>local. bitonic_sort_recursive local 0 (2 ^ 1) True) [[3, 1], [2, 0]])
       = Some [[1, 3], [0, 2]]
   \<and> parts_ok 2 (2 ^ 1) [[1, 3], [0, 2]]
   \<and> exchange_network (\<lambda>a. True) 2 (2 ^ 1) [[1, 3], [0, 2]]
       = Some (Inr ([[0, 1], [2, 3]], [(2, 1, [[0, 1], [2, 3]])]))
   \<and> parts_ok 2 (2 ^ 1) [[0, 1], [2, 3]]
   \<and> schedule_from 1 1 = [(2, 1)]"
proof -
  have x: "((0::nat) XOR 1) = 1" by simp
  have b: "2 * int 2 \<le> INT_MAX" "int 2 \<le> INT_MAX" "int (2 ^ 1) \<le> INT_MAX"
    by (simp_all add: INT_MAX_def)
  have r: "rank_round (\<lambda>a. True) [[1, 3], [0, 2]] 2 2 1 0 = Inr [0, 1]"
    "rank_round (\<lambda>a. True) [[1, 3], [0, 2]] 2 2 1 1 = Inr [2, 3]"
    by code_simp+
  have l: "those (map (\<lambda>local. bitonic_sort_recursive local 0 (2 ^ 1) True) [[3, 1], [2, 0]])
       = Some [[1, 3], [0, 2]]"
    by code_simp
  have n: "exchange_network (\<lambda>a. True) 2 (2 ^ 1) [[1, 3], [0, 2]]
       = Some (Inr ([[0, 1], [2, 3]], [(2, 1, [[0, 1], [2, 3]])]))"
    by code_simp
  have p: "parts_ok 2 (2 ^ 1) [[1, 3], [0, 2]]" "parts_ok 2 (2 ^ 1) [[0, 1], [2, 3]]"
    by (simp_all add: parts_ok_def)
  have s: "schedule_from 1 1 = [(2, 1)]"
    by (simp add: schedule_from_def phase_rounds_def)
  from partitions_stay_sorted [of "[[1, 3], [0, 2]]" 0 1 2 "\<lambda>a. True" 2 2 1 1 "[[3, 1], [2, 0]]"]
  have "sorted [0, 1 :: int]" using r(1) x by simp
  with x b r l n p s show ?thesis by simp
qed

end
